theory Spec2Isabelle
  imports Complex_Main "HOL-Library.Word" "HOL-Library.Multiset" "HOL-Library.Product_Lexorder"
begin

section \<open>The denominator graph of chain/chain-den-graph.cc\<close>

text \<open>
  A shallow embedding of \<^verbatim>\<open>DenominatorGraph::SetTransitions\<close>,
  \<^verbatim>\<open>DenominatorGraph::SetInitialProbs\<close>, \<^verbatim>\<open>NumStatesThatCanReach\<close> and
  \<^verbatim>\<open>DenominatorGraph::ComputeSpecialState\<close>.

  Conventions of the embedding:
  \<^item> \<^verbatim>\<open>KALDI_ASSERT\<close> that fails is the result \<open>Inl AssertFailure\<close>, \<^verbatim>\<open>KALDI_ERR\<close> is
    \<open>Inl FatalError\<close>; an index outside a \<^verbatim>\<open>std::vector\<close> or a \<^verbatim>\<open>Vector\<close> (undefined
    behaviour in C++: none of these accesses is checked) is \<open>Inl OutOfRange\<close>.
  \<^item> Labels and the pdf count are \<open>32 word\<close>, read with \<open>sint\<close>; \<^verbatim>\<open>ilabel - 1\<close> wraps.
    \<^verbatim>\<open>static_cast<int32>\<close> of a \<^verbatim>\<open>size_t\<close> is written out as the two's complement wrap.
    State ids are \<open>int\<close> where the automaton supplies them (they may be \<^verbatim>\<open>kNoStateId = -1\<close>)
    and \<open>nat\<close> where the code counts them up from 0.
  \<^item> \<^verbatim>\<open>float\<close> and \<^verbatim>\<open>double\<close> are the type \<open>flt\<close>: a real number or one of the IEEE
    special values \<open>+inf\<close>, \<open>-inf\<close>, \<open>NaN\<close>, with the IEEE rules for the special values.
    Rounding, overflow and underflow of finite values, the sign of zero and the
    narrowing from \<^verbatim>\<open>double\<close> to \<^verbatim>\<open>float\<close> are not modelled: finite arithmetic is exact.
\<close>

subsection \<open>Errors\<close>

text \<open>
  Modelled from the spec: the macros \<^verbatim>\<open>KALDI_ASSERT\<close> and \<^verbatim>\<open>KALDI_ERR\<close> (base/kaldi-error.h,
  not part of this file). The specification treats a violated assertion and \<^verbatim>\<open>KALDI_ERR\<close> as
  fatal: construction aborts and no object is returned.
\<close>

datatype error = AssertFailure | FatalError | OutOfRange

fun fold_err :: "('a \<Rightarrow> 's \<Rightarrow> error + 's) \<Rightarrow> 'a list \<Rightarrow> 's \<Rightarrow> error + 's" where
  "fold_err f [] st = Inr st"
| "fold_err f (x # xs) st = (case f x st of Inl e \<Rightarrow> Inl e | Inr st' \<Rightarrow> fold_err f xs st')"

subsection \<open>Floating-point values\<close>

datatype flt = Fin real | PInf | NInf | NaN

fun flt_neg :: "flt \<Rightarrow> flt" where
  "flt_neg (Fin r) = Fin (- r)"
| "flt_neg PInf = NInf"
| "flt_neg NInf = PInf"
| "flt_neg NaN = NaN"

fun flt_exp :: "flt \<Rightarrow> flt" where
  "flt_exp (Fin r) = Fin (exp r)"
| "flt_exp PInf = PInf"
| "flt_exp NInf = Fin 0"
| "flt_exp NaN = NaN"

fun flt_add :: "flt \<Rightarrow> flt \<Rightarrow> flt" where
  "flt_add (Fin a) (Fin b) = Fin (a + b)"
| "flt_add NaN _ = NaN"
| "flt_add _ NaN = NaN"
| "flt_add PInf NInf = NaN"
| "flt_add NInf PInf = NaN"
| "flt_add PInf _ = PInf"
| "flt_add _ PInf = PInf"
| "flt_add NInf _ = NInf"
| "flt_add _ NInf = NInf"

text \<open>The sign of an infinity times a finite value; \<open>inf * 0\<close> is NaN.\<close>

fun flt_scale_inf :: "bool \<Rightarrow> real \<Rightarrow> flt" where
  "flt_scale_inf pos r =
     (if r = 0 then NaN else if (0 < r) = pos then PInf else NInf)"

fun flt_mul :: "flt \<Rightarrow> flt \<Rightarrow> flt" where
  "flt_mul (Fin a) (Fin b) = Fin (a * b)"
| "flt_mul NaN _ = NaN"
| "flt_mul _ NaN = NaN"
| "flt_mul PInf (Fin b) = flt_scale_inf True b"
| "flt_mul NInf (Fin b) = flt_scale_inf False b"
| "flt_mul (Fin a) PInf = flt_scale_inf True a"
| "flt_mul (Fin a) NInf = flt_scale_inf False a"
| "flt_mul PInf PInf = PInf"
| "flt_mul NInf NInf = PInf"
| "flt_mul PInf NInf = NInf"
| "flt_mul NInf PInf = NInf"

text \<open>Division; a zero divisor is taken as \<open>+0\<close>, so \<open>x / 0\<close> has the sign of \<open>x\<close>.\<close>

fun flt_div :: "flt \<Rightarrow> flt \<Rightarrow> flt" where
  "flt_div (Fin a) (Fin b) =
     (if b = 0 then (if a = 0 then NaN else if 0 < a then PInf else NInf)
      else Fin (a / b))"
| "flt_div NaN _ = NaN"
| "flt_div _ NaN = NaN"
| "flt_div (Fin a) PInf = Fin 0"
| "flt_div (Fin a) NInf = Fin 0"
| "flt_div PInf (Fin b) = (if 0 \<le> b then PInf else NInf)"
| "flt_div NInf (Fin b) = (if 0 \<le> b then NInf else PInf)"
| "flt_div PInf PInf = NaN"
| "flt_div PInf NInf = NaN"
| "flt_div NInf PInf = NaN"
| "flt_div NInf NInf = NaN"

text \<open>The comparison \<^verbatim>\<open><\<close>: false whenever an operand is NaN.\<close>

fun flt_less :: "flt \<Rightarrow> flt \<Rightarrow> bool" where
  "flt_less (Fin a) (Fin b) = (a < b)"
| "flt_less NaN _ = False"
| "flt_less _ NaN = False"
| "flt_less NInf NInf = False"
| "flt_less NInf _ = True"
| "flt_less PInf _ = False"
| "flt_less _ PInf = True"
| "flt_less _ NInf = False"

definition flt_le :: "flt \<Rightarrow> flt \<Rightarrow> bool" where
  "flt_le a b = (flt_less a b \<or> (a = b \<and> a \<noteq> NaN))"

subsection \<open>The input automaton (fst::StdVectorFst)\<close>

text \<open>
  Modelled from the spec: OpenFst's \<^verbatim>\<open>StdVectorFst\<close> and \<^verbatim>\<open>StdArc\<close> (not part of this file): states
  indexed from 0, one start state (\<open>-1\<close> when there is none), a final weight per state
  (infinite for a state that is not final) and, per state, the list of its out-arcs, each
  with labels, a weight in the negative-log domain and a destination state.
\<close>

type_synonym int32 = "32 word"

record StdArc =
  ilabel :: int32
  olabel :: int32
  weight :: flt
  nextstate :: int

record VectorState =
  final :: flt
  arcs :: "StdArc list"

record StdVectorFst =
  start :: int
  states :: "VectorState list"

definition NumStates :: "StdVectorFst \<Rightarrow> nat" where
  "NumStates ifst = length (states ifst)"

definition arcs_of :: "StdVectorFst \<Rightarrow> nat \<Rightarrow> StdArc list" where
  "arcs_of ifst s = arcs (states ifst ! s)"

text \<open>\<^verbatim>\<open>exp(-w.Value())\<close>\<close>

definition exp_neg :: "flt \<Rightarrow> flt" where
  "exp_neg w = flt_exp (flt_neg w)"

subsection \<open>SetTransitions\<close>

record DenominatorGraphTransition =
  transition_prob :: flt
  pdf_id :: int32
  hmm_state :: int

record Int32Pair =
  first :: int
  second :: int

definition static_cast_int32 :: "nat \<Rightarrow> int" where
  "static_cast_int32 n = (int n + 2 ^ 31) mod 2 ^ 32 - 2 ^ 31"

type_synonym buckets = "DenominatorGraphTransition list list"

text \<open>The body of the arc loop: one arc of state \<open>s\<close>.\<close>

definition add_arc :: "int32 \<Rightarrow> nat \<Rightarrow> StdArc \<Rightarrow> buckets \<times> buckets \<Rightarrow> error + buckets \<times> buckets" where
  "add_arc num_pdfs s arc st =
     (case st of (transitions_out, transitions_in) \<Rightarrow>
      let transition = \<lparr> transition_prob = exp_neg (weight arc),
                         pdf_id = ilabel arc - 1,
                         hmm_state = nextstate arc \<rparr>
      in if \<not> (0 \<le> sint (pdf_id transition) \<and> sint (pdf_id transition) < sint num_pdfs)
         then Inl AssertFailure
         else if \<not> s < length transitions_out then Inl OutOfRange
         else let transitions_out' = transitions_out[s := transitions_out ! s @ [transition]]
         in if \<not> (0 \<le> nextstate arc \<and> nextstate arc < int (length transitions_in))
            then Inl OutOfRange
            else let d = nat (nextstate arc)
            in Inr (transitions_out',
                    transitions_in[d := transitions_in ! d @ [transition\<lparr>hmm_state := int s\<rparr>]]))"

definition collect_transitions :: "StdVectorFst \<Rightarrow> int32 \<Rightarrow> error + buckets \<times> buckets" where
  "collect_transitions ifst num_pdfs =
     fold_err (\<lambda>s. fold_err (add_arc num_pdfs s) (arcs_of ifst s))
       [0 ..< NumStates ifst]
       (replicate (NumStates ifst) [], replicate (NumStates ifst) [])"

text \<open>
  One round of a flattening loop: the range of bucket \<open>s\<close> is written to entry \<open>s\<close> of
  the offset table and the bucket is appended to the shared array.
\<close>

definition flatten_step ::
  "buckets \<Rightarrow> nat \<Rightarrow>
   Int32Pair list \<times> DenominatorGraphTransition list \<Rightarrow>
   Int32Pair list \<times> DenominatorGraphTransition list" where
  "flatten_step bs s st =
     (case st of (ranges, transitions) \<Rightarrow>
      let fst_off = static_cast_int32 (length transitions);
          transitions' = transitions @ bs ! s;
          snd_off = static_cast_int32 (length transitions')
      in (ranges[s := \<lparr> first = fst_off, second = snd_off \<rparr>], transitions'))"

definition flatten ::
  "nat \<Rightarrow> buckets \<Rightarrow> DenominatorGraphTransition list \<Rightarrow>
   Int32Pair list \<times> DenominatorGraphTransition list" where
  "flatten num_states bs transitions =
     fold (flatten_step bs) [0 ..< num_states]
       (replicate num_states \<lparr> first = 0, second = 0 \<rparr>, transitions)"

record TransitionTables =
  forward_transitions :: "Int32Pair list"
  backward_transitions :: "Int32Pair list"
  transitions :: "DenominatorGraphTransition list"

definition SetTransitions :: "StdVectorFst \<Rightarrow> int32 \<Rightarrow> error + TransitionTables" where
  "SetTransitions ifst num_pdfs =
     (case collect_transitions ifst num_pdfs of
        Inl e \<Rightarrow> Inl e
      | Inr (transitions_out, transitions_in) \<Rightarrow>
          (case flatten (NumStates ifst) transitions_out [] of (fwd, ts1) \<Rightarrow>
           case flatten (NumStates ifst) transitions_in ts1 of (bwd, ts2) \<Rightarrow>
             Inr \<lparr> forward_transitions = fwd, backward_transitions = bwd,
                   transitions = ts2 \<rparr>))"

subsection \<open>NumStatesThatCanReach\<close>

text \<open>The loop that fills \<^verbatim>\<open>reverse_transitions\<close>.\<close>

definition add_reverse :: "nat \<Rightarrow> StdArc \<Rightarrow> nat list list \<Rightarrow> error + nat list list" where
  "add_reverse s arc reverse_transitions =
     (if \<not> (0 \<le> nextstate arc \<and> nextstate arc < int (length reverse_transitions))
      then Inl OutOfRange
      else let d = nat (nextstate arc)
           in Inr (reverse_transitions[d := reverse_transitions ! d @ [s]]))"

definition reverse_transitions_of :: "StdVectorFst \<Rightarrow> error + nat list list" where
  "reverse_transitions_of ifst =
     fold_err (\<lambda>s. fold_err (add_reverse s) (arcs_of ifst s))
       [0 ..< NumStates ifst] (replicate (NumStates ifst) [])"

text \<open>
  The state of the search: \<^verbatim>\<open>can_reach\<close>, \<^verbatim>\<open>queue\<close> and \<^verbatim>\<open>num_states_can_reach\<close>.
  The vector \<^verbatim>\<open>queue\<close> is used as a stack (\<^verbatim>\<open>back\<close>, \<^verbatim>\<open>pop_back\<close>, \<^verbatim>\<open>push_back\<close>); it is
  kept here with its back at the head of the list.
\<close>

type_synonym search_state = "bool list \<times> nat list \<times> nat"

text \<open>The body of the inner \<^verbatim>\<open>for\<close> loop, for one \<^verbatim>\<open>prev_state\<close>.\<close>

definition visit_prev :: "nat \<Rightarrow> search_state \<Rightarrow> error + search_state" where
  "visit_prev prev_state st =
     (case st of (can_reach, queue, num_states_can_reach) \<Rightarrow>
      if \<not> prev_state < length can_reach then Inl OutOfRange
      else if \<not> can_reach ! prev_state
      then Inr (can_reach[prev_state := True], prev_state # queue, num_states_can_reach + 1)
      else Inr st)"

definition num_false :: "bool list \<Rightarrow> nat" where
  "num_false bs = length (filter Not bs)"

function search_loop :: "nat list list \<Rightarrow> search_state \<Rightarrow> error + nat" where
  "search_loop reverse_transitions (can_reach, [], n) = Inr n"
| "search_loop reverse_transitions (can_reach, state # queue, n) =
     (if \<not> state < length reverse_transitions then Inl OutOfRange
      else case fold_err visit_prev (reverse_transitions ! state) (can_reach, queue, n) of
             Inl e \<Rightarrow> Inl e
           | Inr st' \<Rightarrow> search_loop reverse_transitions st')"
  by pat_completeness auto
termination
proof (relation "(\<lambda>(rt, cr, q, n). num_false cr) <*mlex*> measure (\<lambda>(rt, cr, q, n). length q)")
  show "wf ((\<lambda>(rt, cr, q, n). num_false cr) <*mlex*> measure (\<lambda>(rt, cr, q, n). length q))"
    by (simp add: wf_mlex)
next
  fix reverse_transitions :: "nat list list" and can_reach :: "bool list"
    and state :: nat and queue :: "nat list" and n :: nat and st' :: search_state
  assume run: "fold_err visit_prev (reverse_transitions ! state) (can_reach, queue, n) = Inr st'"
  have one: "num_false (cr[p := True]) < num_false cr" if "p < length cr" "\<not> cr ! p"
    for cr :: "bool list" and p
    using that
  proof (induction cr arbitrary: p)
    case Nil
    then show ?case by simp
  next
    case (Cons b bs)
    then show ?case by (cases p) (auto simp: num_false_def)
  qed
  have step: "num_false cr' < num_false cr \<or> (cr' = cr \<and> q' = q)"
    if "visit_prev p (cr, q, m) = Inr (cr', q', m')" for p cr q m cr' q' m'
    using that one [of p cr] by (auto simp: visit_prev_def split: if_splits)
  have run_mono: "num_false cr' < num_false cr \<or> (cr' = cr \<and> q' = q)"
    if "fold_err visit_prev ps (cr, q, m) = Inr (cr', q', m')" for ps cr q m cr' q' m'
    using that
  proof (induction ps arbitrary: cr q m)
    case Nil
    then show ?case by simp
  next
    case (Cons p ps)
    then obtain cr1 q1 m1 where
      a: "visit_prev p (cr, q, m) = Inr (cr1, q1, m1)" and
      b: "fold_err visit_prev ps (cr1, q1, m1) = Inr (cr', q', m')"
      by (auto split: sum.splits)
    from step [OF a] Cons.IH [OF b] show ?case by auto
  qed
  obtain cr' q' m' where st': "st' = (cr', q', m')" by (cases st') auto
  from run_mono [OF run [unfolded st']]
  show "((reverse_transitions, st'), (reverse_transitions, can_reach, state # queue, n))
        \<in> (\<lambda>(rt, cr, q, n). num_false cr) <*mlex*> measure (\<lambda>(rt, cr, q, n). length q)"
    by (auto simp: st' mlex_prod_def)
qed

definition NumStatesThatCanReach :: "StdVectorFst \<Rightarrow> int \<Rightarrow> error + nat" where
  "NumStatesThatCanReach ifst dest_state =
     (let num_states = NumStates ifst
      in if \<not> (0 \<le> dest_state \<and> dest_state < int num_states) then Inl AssertFailure
         else case reverse_transitions_of ifst of
                Inl e \<Rightarrow> Inl e
              | Inr reverse_transitions \<Rightarrow>
                  (case search_loop reverse_transitions
                          ((replicate num_states False)[nat dest_state := True],
                           [nat dest_state], 1) of
                     Inl e \<Rightarrow> Inl e
                   | Inr num_states_can_reach \<Rightarrow>
                       if \<not> (1 \<le> num_states_can_reach \<and> num_states_can_reach \<le> num_states)
                       then Inl AssertFailure
                       else Inr num_states_can_reach))"

subsection \<open>ComputeSpecialState\<close>

text \<open>
  \<^verbatim>\<open>operator<\<close> of \<^verbatim>\<open>std::pair<BaseFloat, int32>\<close>, and \<^verbatim>\<open>std::sort\<close> as an insertion sort
  with it. Where no key is NaN the comparison is a strict weak order and every sorting
  algorithm returns the same sequence of keys and states.
\<close>

definition pair_less :: "flt \<times> nat \<Rightarrow> flt \<times> nat \<Rightarrow> bool" where
  "pair_less a b =
     (flt_less (fst a) (fst b) \<or> (\<not> flt_less (fst b) (fst a) \<and> snd a < snd b))"

fun insert_pair :: "flt \<times> nat \<Rightarrow> (flt \<times> nat) list \<Rightarrow> (flt \<times> nat) list" where
  "insert_pair x [] = [x]"
| "insert_pair x (y # ys) = (if pair_less x y then x # y # ys else y # insert_pair x ys)"

definition std_sort :: "(flt \<times> nat) list \<Rightarrow> (flt \<times> nat) list" where
  "std_sort xs = foldr insert_pair xs []"

text \<open>
  The array \<^verbatim>\<open>pairs\<close> before sorting: \<^verbatim>\<open>pairs(num_states)\<close> holds \<open>num_states\<close>
  value-initialised pairs, and the loop pushes one more pair per state.
\<close>

definition candidate_pairs :: "flt list \<Rightarrow> (flt \<times> nat) list" where
  "candidate_pairs initial_probs =
     fold (\<lambda>i pairs. pairs @ [(flt_neg (initial_probs ! i), i)])
       [0 ..< length initial_probs]
       (replicate (length initial_probs) (Fin 0, 0))"

text \<open>\<^verbatim>\<open>int32 min_states_can_reach = 0.75 * num_states\<close>: the product truncated.\<close>

definition min_states_can_reach :: "nat \<Rightarrow> nat" where
  "min_states_can_reach num_states = (3 * num_states) div 4"

text \<open>The scan of \<^verbatim>\<open>pairs[0 .. num_states - 1]\<close>; the warning of a rejection is not modelled.\<close>

fun scan_candidates :: "StdVectorFst \<Rightarrow> nat \<Rightarrow> nat list \<Rightarrow> error + nat" where
  "scan_candidates ifst threshold [] = Inl FatalError"
| "scan_candidates ifst threshold (state # rest) =
     (case NumStatesThatCanReach ifst (int state) of
        Inl e \<Rightarrow> Inl e
      | Inr n \<Rightarrow> if n < threshold then scan_candidates ifst threshold rest else Inr state)"

definition scanned_candidates :: "flt list \<Rightarrow> nat list" where
  "scanned_candidates initial_probs =
     map snd (take (length initial_probs) (std_sort (candidate_pairs initial_probs)))"

definition ComputeSpecialState :: "StdVectorFst \<Rightarrow> flt list \<Rightarrow> error + nat" where
  "ComputeSpecialState ifst initial_probs =
     scan_candidates ifst (min_states_can_reach (length initial_probs))
       (scanned_candidates initial_probs)"

subsection \<open>SetInitialProbs\<close>

text \<open>
  Modelled from the spec: the operations of Kaldi's \<^verbatim>\<open>Vector<double>\<close> (matrix library, not
  part of this file): \<^verbatim>\<open>Sum\<close> adds the entries, \<^verbatim>\<open>Scale\<close> multiplies every entry,
  \<^verbatim>\<open>AddVec(alpha, v)\<close> adds \<open>alpha * v\<close> entry by entry.
\<close>

definition Vector_Sum :: "flt list \<Rightarrow> flt" where
  "Vector_Sum v = fold (\<lambda>x acc. flt_add acc x) v (Fin 0)"

definition Vector_Scale :: "flt \<Rightarrow> flt list \<Rightarrow> flt list" where
  "Vector_Scale alpha v = map (\<lambda>x. flt_mul x alpha) v"

definition Vector_AddVec :: "flt \<Rightarrow> flt list \<Rightarrow> flt list \<Rightarrow> flt list" where
  "Vector_AddVec alpha v this = map (\<lambda>(x, y). flt_add x (flt_mul alpha y)) (zip this v)"

text \<open>\<^verbatim>\<open>tot_prob\<close> of state \<open>s\<close>: the final probability plus the arcs' probabilities.\<close>

definition tot_prob :: "StdVectorFst \<Rightarrow> nat \<Rightarrow> flt" where
  "tot_prob ifst s =
     fold (\<lambda>arc tot. flt_add tot (exp_neg (weight arc))) (arcs_of ifst s)
       (exp_neg (final (states ifst ! s)))"

definition normalize_state :: "StdVectorFst \<Rightarrow> nat \<Rightarrow> flt list \<Rightarrow> error + flt list" where
  "normalize_state ifst s normalizing_factor =
     (if \<not> (flt_less (Fin 0) (tot_prob ifst s) \<and> flt_less (tot_prob ifst s) (Fin 100))
      then Inl AssertFailure
      else Inr (normalizing_factor[s := flt_div (Fin 1) (tot_prob ifst s)]))"

definition normalizing_factors :: "StdVectorFst \<Rightarrow> error + flt list" where
  "normalizing_factors ifst =
     fold_err (normalize_state ifst) [0 ..< NumStates ifst]
       (replicate (NumStates ifst) (Fin 0))"

definition propagate_arc :: "flt \<Rightarrow> StdArc \<Rightarrow> flt list \<Rightarrow> error + flt list" where
  "propagate_arc prob arc next_prob =
     (if \<not> (0 \<le> nextstate arc \<and> nextstate arc < int (length next_prob)) then Inl OutOfRange
      else let d = nat (nextstate arc)
           in Inr (next_prob[d := flt_add (next_prob ! d)
                                     (flt_mul prob (exp_neg (weight arc)))]))"

definition propagate_state ::
  "StdVectorFst \<Rightarrow> flt list \<Rightarrow> flt list \<Rightarrow> nat \<Rightarrow> flt list \<Rightarrow> error + flt list" where
  "propagate_state ifst normalizing_factor cur_prob s next_prob =
     (let prob = flt_mul (cur_prob ! s) (normalizing_factor ! s)
      in fold_err (propagate_arc prob) (arcs_of ifst s) next_prob)"

text \<open>
  One iteration of the propagation, on \<open>(cur_prob, next_prob, avg_prob)\<close>; after the
  swap \<^verbatim>\<open>next_prob\<close> is set to zero.
\<close>

definition iteration ::
  "StdVectorFst \<Rightarrow> nat \<Rightarrow> flt list \<Rightarrow> flt list \<times> flt list \<times> flt list \<Rightarrow>
   error + flt list \<times> flt list \<times> flt list" where
  "iteration ifst num_iters normalizing_factor st =
     (case st of (cur_prob, next_prob, avg_prob) \<Rightarrow>
      (case fold_err (propagate_state ifst normalizing_factor cur_prob)
              [0 ..< NumStates ifst] next_prob of
         Inl e \<Rightarrow> Inl e
       | Inr next_prob' \<Rightarrow>
           let cur_prob' = Vector_Scale (flt_div (Fin 1) (Vector_Sum next_prob')) next_prob'
           in Inr (cur_prob',
                   replicate (NumStates ifst) (Fin 0),
                   Vector_AddVec (flt_div (Fin 1) (Fin (real num_iters))) cur_prob' avg_prob)))"

fun iterations ::
  "nat \<Rightarrow> StdVectorFst \<Rightarrow> nat \<Rightarrow> flt list \<Rightarrow> flt list \<times> flt list \<times> flt list \<Rightarrow>
   error + flt list \<times> flt list \<times> flt list" where
  "iterations 0 ifst num_iters normalizing_factor st = Inr st"
| "iterations (Suc k) ifst num_iters normalizing_factor st =
     (case iteration ifst num_iters normalizing_factor st of
        Inl e \<Rightarrow> Inl e
      | Inr st' \<Rightarrow> iterations k ifst num_iters normalizing_factor st')"

text \<open>The estimate \<^verbatim>\<open>avg_prob\<close>, which becomes \<^verbatim>\<open>initial_probs_\<close>.\<close>

definition avg_prob_of :: "StdVectorFst \<Rightarrow> error + flt list" where
  "avg_prob_of ifst =
     (let num_iters = 100; num_states = NumStates ifst
      in case normalizing_factors ifst of
           Inl e \<Rightarrow> Inl e
         | Inr normalizing_factor \<Rightarrow>
             if \<not> (0 \<le> start ifst \<and> start ifst < int num_states) then Inl OutOfRange
             else let zero = replicate num_states (Fin 0)
             in (case iterations num_iters ifst num_iters normalizing_factor
                        (zero[nat (start ifst) := Fin 1], zero, zero) of
                   Inl e \<Rightarrow> Inl e
                 | Inr (cur_prob, next_prob, avg_prob) \<Rightarrow> Inr avg_prob))"

text \<open>\<^verbatim>\<open>SetInitialProbs\<close> sets \<^verbatim>\<open>initial_probs_\<close> and \<^verbatim>\<open>special_hmm_state_\<close>.\<close>

definition SetInitialProbs :: "StdVectorFst \<Rightarrow> error + flt list \<times> nat" where
  "SetInitialProbs ifst =
     (case avg_prob_of ifst of
        Inl e \<Rightarrow> Inl e
      | Inr avg_prob \<Rightarrow>
          (case ComputeSpecialState ifst avg_prob of
             Inl e \<Rightarrow> Inl e
           | Inr state \<Rightarrow> Inr (avg_prob, state)))"

subsection \<open>The constructor\<close>

record DenominatorGraph =
  tables :: TransitionTables
  initial_probs :: "flt list"
  special_hmm_state :: nat

definition DenominatorGraph_new :: "StdVectorFst \<Rightarrow> int32 \<Rightarrow> error + DenominatorGraph" where
  "DenominatorGraph_new ifst num_pdfs =
     (case SetTransitions ifst num_pdfs of
        Inl e \<Rightarrow> Inl e
      | Inr t \<Rightarrow>
          (case SetInitialProbs ifst of
             Inl e \<Rightarrow> Inl e
           | Inr (probs, state) \<Rightarrow>
               Inr \<lparr> tables = t, initial_probs = probs, special_hmm_state = state \<rparr>))"

section \<open>Definitions for the properties\<close>

subsection \<open>Arcs and transition tables\<close>

text \<open>The assertion of \<^verbatim>\<open>SetTransitions\<close> on one arc, and an arc whose destination is a state.\<close>

definition label_ok :: "int32 \<Rightarrow> StdArc \<Rightarrow> bool" where
  "label_ok num_pdfs arc = (0 \<le> sint (ilabel arc - 1) \<and> sint (ilabel arc - 1) < sint num_pdfs)"

definition dest_ok :: "nat \<Rightarrow> StdArc \<Rightarrow> bool" where
  "dest_ok num_states arc = (0 \<le> nextstate arc \<and> nextstate arc < int num_states)"

definition valid_arcs :: "StdVectorFst \<Rightarrow> int32 \<Rightarrow> bool" where
  "valid_arcs ifst num_pdfs =
     (\<forall>s < NumStates ifst. \<forall>a \<in> set (arcs_of ifst s).
        label_ok num_pdfs a \<and> dest_ok (NumStates ifst) a)"

text \<open>Every arc leads to a state of the automaton.\<close>

definition valid_dests :: "StdVectorFst \<Rightarrow> bool" where
  "valid_dests ifst =
     (\<forall>s < NumStates ifst. \<forall>a \<in> set (arcs_of ifst s). dest_ok (NumStates ifst) a)"












subsection \<open>Reachability\<close>

text \<open>The arcs of the automaton as a relation on states, weights and labels ignored.\<close>

definition edges :: "StdVectorFst \<Rightarrow> (nat \<times> nat) set" where
  "edges ifst =
     {(s, d). s < NumStates ifst \<and> (\<exists>a \<in> set (arcs_of ifst s). nextstate a = int d)}"

text \<open>The states from which \<open>d\<close> is reached along arcs, \<open>d\<close> itself included.\<close>

definition states_reaching :: "StdVectorFst \<Rightarrow> nat \<Rightarrow> nat set" where
  "states_reaching ifst d = {s. s < NumStates ifst \<and> (s, d) \<in> (edges ifst)\<^sup>*}"

definition strongly_connected :: "StdVectorFst \<Rightarrow> bool" where
  "strongly_connected ifst =
     (\<forall>s < NumStates ifst. \<forall>d < NumStates ifst. (s, d) \<in> (edges ifst)\<^sup>*)"

text \<open>
  The automaton consists of two parts of equal size, the states in \<open>A\<close> and the others, with
  no arc from one part to the other.
\<close>

definition two_components :: "StdVectorFst \<Rightarrow> nat set \<Rightarrow> bool" where
  "two_components ifst A =
     (A \<subseteq> {0 ..< NumStates ifst} \<and> 2 * card A = NumStates ifst
      \<and> (\<forall>(u, v) \<in> edges ifst. (u \<in> A) = (v \<in> A)))"

text \<open>The states marked in \<^verbatim>\<open>can_reach\<close>.\<close>

definition marked :: "bool list \<Rightarrow> nat set" where
  "marked can_reach = {i. i < length can_reach \<and> can_reach ! i}"

text \<open>
  The invariant of the search for destination \<open>d\<close>: the queue holds marked states, the
  counter counts the marked states, every marked state reaches \<open>d\<close>, and the predecessors
  of a marked state that has left the queue are marked.
\<close>

definition search_inv :: "StdVectorFst \<Rightarrow> nat \<Rightarrow> search_state \<Rightarrow> bool" where
  "search_inv ifst d st =
     (case st of (can_reach, queue, n) \<Rightarrow>
        length can_reach = NumStates ifst
      \<and> set queue \<subseteq> marked can_reach
      \<and> n = card (marked can_reach)
      \<and> d \<in> marked can_reach
      \<and> marked can_reach \<subseteq> states_reaching ifst d
      \<and> (\<forall>v \<in> marked can_reach. v \<notin> set queue \<longrightarrow>
            (\<forall>u. (u, v) \<in> edges ifst \<longrightarrow> u \<in> marked can_reach)))"

subsection \<open>Special-state selection as the specification words it\<close>

text \<open>
  The selection of the specification: all states sorted by initial probability descending
  (ties by state index), scanned in that order, the first state whose reachability count
  meets the threshold returned, a fatal error when none does. It differs from
  \<open>ComputeSpecialState\<close> only in the candidate list.
\<close>

definition ranked_states :: "flt list \<Rightarrow> nat list" where
  "ranked_states probs =
     map snd (std_sort (map (\<lambda>i. (flt_neg (probs ! i), i)) [0 ..< length probs]))"

definition ComputeSpecialState_spec :: "StdVectorFst \<Rightarrow> flt list \<Rightarrow> error + nat" where
  "ComputeSpecialState_spec ifst probs =
     scan_candidates ifst (min_states_can_reach (length probs)) (ranked_states probs)"

text \<open>
  The scan with the test as the comment in the code and the specification word it: a
  state is rejected when it is reached by less than 75 percent of the states, that is
  when \<open>n < 0.75 * num_states\<close> without truncation.
\<close>

fun scan_three_quarters :: "StdVectorFst \<Rightarrow> nat \<Rightarrow> nat list \<Rightarrow> error + nat" where
  "scan_three_quarters ifst num_states [] = Inl FatalError"
| "scan_three_quarters ifst num_states (state # rest) =
     (case NumStatesThatCanReach ifst (int state) of
        Inl e \<Rightarrow> Inl e
      | Inr n \<Rightarrow> if 4 * n < 3 * num_states then scan_three_quarters ifst num_states rest
                 else Inr state)"

subsection \<open>The candidates of the code\<close>

text \<open>An initial probability: a finite, non-negative value.\<close>

definition is_prob :: "flt \<Rightarrow> bool" where
  "is_prob p = (case p of Fin r \<Rightarrow> 0 \<le> r | _ \<Rightarrow> False)"

text \<open>The pair that \<^verbatim>\<open>ComputeSpecialState\<close> pushes for state \<open>i\<close>.\<close>

definition state_pair :: "flt list \<Rightarrow> nat \<Rightarrow> flt \<times> nat" where
  "state_pair probs i = (flt_neg (probs ! i), i)"

text \<open>The states with positive initial probability, by probability descending.\<close>

definition ranked_positive :: "flt list \<Rightarrow> nat list" where
  "ranked_positive probs =
     map snd (std_sort (filter (\<lambda>p. flt_less (fst p) (Fin 0))
                          (map (state_pair probs) [0 ..< length probs])))"

text \<open>The number of states with initial probability exactly 0.\<close>

definition num_zero :: "flt list \<Rightarrow> nat" where
  "num_zero probs = length (filter (\<lambda>p. p = Fin 0) probs)"


text \<open>A pair with a finite key, as a pair of the lexicographic order on \<open>real \<times> nat\<close>.\<close>

definition to_key :: "flt \<times> nat \<Rightarrow> real \<times> nat" where
  "to_key p = (case fst p of Fin r \<Rightarrow> r | _ \<Rightarrow> 0, snd p)"

definition fin_key :: "flt \<times> nat \<Rightarrow> bool" where
  "fin_key p = (case fst p of Fin r \<Rightarrow> True | _ \<Rightarrow> False)"

subsection \<open>Probability mass\<close>

text \<open>A tropical weight: finite or \<open>+inf\<close>; its probability \<open>exp(-w)\<close> as a real number.\<close>

definition is_weight :: "flt \<Rightarrow> bool" where
  "is_weight w = (case w of Fin r \<Rightarrow> True | PInf \<Rightarrow> True | _ \<Rightarrow> False)"

definition weight_prob :: "flt \<Rightarrow> real" where
  "weight_prob w = (case w of Fin r \<Rightarrow> exp (- r) | _ \<Rightarrow> 0)"

text \<open>The probability mass on the arcs of state \<open>s\<close>, and its total mass with the final weight.\<close>

definition arc_mass :: "StdVectorFst \<Rightarrow> nat \<Rightarrow> real" where
  "arc_mass ifst s = sum_list (map (\<lambda>a. weight_prob (weight a)) (arcs_of ifst s))"

definition mass :: "StdVectorFst \<Rightarrow> nat \<Rightarrow> real" where
  "mass ifst s = weight_prob (final (states ifst ! s)) + arc_mass ifst s"

text \<open>
  An automaton in which no mass is lost entirely: the start state is a state, arcs lead to
  states, weights are tropical weights, every state has an arc of positive probability,
  and every state passes the sanity bound.
\<close>

definition no_dead_ends :: "StdVectorFst \<Rightarrow> bool" where
  "no_dead_ends ifst =
     (valid_dests ifst \<and> 0 \<le> start ifst \<and> start ifst < int (NumStates ifst)
      \<and> (\<forall>s < NumStates ifst.
            is_weight (final (states ifst ! s))
          \<and> (\<forall>a \<in> set (arcs_of ifst s). is_weight (weight a))
          \<and> 0 < arc_mass ifst s \<and> mass ifst s < 100))"

subsection \<open>Example automata\<close>

text \<open>An arc with label 1 (pdf-id 0) and weight 0 (probability 1) to state \<open>d\<close>.\<close>

definition arc1 :: "int \<Rightarrow> StdArc" where
  "arc1 d = \<lparr> ilabel = 1, olabel = 1, weight = Fin 0, nextstate = d \<rparr>"

text \<open>An arc with the label 0, which has no pdf-id.\<close>

definition arc0 :: "int \<Rightarrow> StdArc" where
  "arc0 d = \<lparr> ilabel = 0, olabel = 0, weight = Fin 0, nextstate = d \<rparr>"

text \<open>One state, the start state, with the given final weight and arcs.\<close>

definition single_state :: "flt \<Rightarrow> StdArc list \<Rightarrow> StdVectorFst" where
  "single_state w as = \<lparr> start = 0, states = [\<lparr> final = w, arcs = as \<rparr>] \<rparr>"


text \<open>
  A start state whose only arc leads to a state without arcs: every state has total mass 1,
  and after two steps no mass is left in the process.
\<close>

definition dead_end_chain :: StdVectorFst where
  "dead_end_chain = \<lparr> start = 0, states = [\<lparr> final = PInf, arcs = [arc1 1] \<rparr>,
                                            \<lparr> final = Fin 0, arcs = [] \<rparr>] \<rparr>"

text \<open>
  A start state with a self-loop only, beside three states of which state 1 is reached
  from all three.
\<close>

definition start_island :: StdVectorFst where
  "start_island = \<lparr> start = 0, states = [\<lparr> final = PInf, arcs = [arc1 0] \<rparr>,
                                          \<lparr> final = Fin 0, arcs = [arc1 1] \<rparr>,
                                          \<lparr> final = Fin 0, arcs = [arc1 1] \<rparr>,
                                          \<lparr> final = Fin 0, arcs = [arc1 1] \<rparr>] \<rparr>"


text \<open>Two states with an arc each way.\<close>

definition two_cycle :: StdVectorFst where
  "two_cycle = \<lparr> start = 0, states = [\<lparr> final = Fin 0, arcs = [arc1 1] \<rparr>,
                                       \<lparr> final = Fin 0, arcs = [arc1 0] \<rparr>] \<rparr>"

text \<open>Two states, each with a self-loop only.\<close>

definition two_isolated :: StdVectorFst where
  "two_isolated = \<lparr> start = 0, states = [\<lparr> final = Fin 0, arcs = [arc1 0] \<rparr>,
                                          \<lparr> final = Fin 0, arcs = [arc1 1] \<rparr>] \<rparr>"

text \<open>Two pairs of states; the states of a pair lead to each other.\<close>

definition two_pairs :: StdVectorFst where
  "two_pairs = \<lparr> start = 0, states = [\<lparr> final = Fin 0, arcs = [arc1 1] \<rparr>,
                                       \<lparr> final = Fin 0, arcs = [arc1 0] \<rparr>,
                                       \<lparr> final = Fin 0, arcs = [arc1 3] \<rparr>,
                                       \<lparr> final = Fin 0, arcs = [arc1 2] \<rparr>] \<rparr>"

section \<open>Proofs\<close>

subsection \<open>SetTransitions\<close>

lemma fold_err_append:
  "fold_err f (xs @ ys) st = (case fold_err f xs st of Inl e \<Rightarrow> Inl e | Inr st' \<Rightarrow> fold_err f ys st')"
  by (induction xs arbitrary: st) (auto split: sum.splits)


lemma add_arc_bad_label:
  "\<not> label_ok n a \<Longrightarrow> add_arc n s a st = Inl AssertFailure"
  by (cases st) (auto simp: add_arc_def label_ok_def Let_def)

lemma add_arc_lengths:
  "add_arc n s a (tout, tin) = Inr (tout', tin') \<Longrightarrow> length tout' = length tout \<and> length tin' = length tin"
  by (auto simp: add_arc_def Let_def split: if_splits)













lemma arcs_loop_valid:
  assumes "fold_err (add_arc n s) as (tout, tin) = Inr r"
  shows "\<forall>a \<in> set as. label_ok n a \<and> dest_ok (length tin) a"
  using assms
proof (induction as arbitrary: tout tin)
  case Nil
  show ?case by simp
next
  case (Cons a as)
  then obtain tout' tin' where
    a: "add_arc n s a (tout, tin) = Inr (tout', tin')" and
    r: "fold_err (add_arc n s) as (tout', tin') = Inr r"
    by (auto split: sum.splits)
  from a have "label_ok n a \<and> dest_ok (length tin) a"
    by (auto simp: add_arc_def label_ok_def dest_ok_def Let_def split: if_splits)
  moreover from Cons.IH [OF r] add_arc_lengths [OF a]
  have "\<forall>a \<in> set as. label_ok n a \<and> dest_ok (length tin) a" by simp
  ultimately show ?case by simp
qed

lemma arcs_loop_lengths:
  "fold_err (add_arc n s) as (tout, tin) = Inr (tout', tin') \<Longrightarrow>
     length tout' = length tout \<and> length tin' = length tin"
proof (induction as arbitrary: tout tin)
  case Nil
  then show ?case by simp
next
  case (Cons a as)
  then obtain tout1 tin1 where
    a: "add_arc n s a (tout, tin) = Inr (tout1, tin1)" and
    r: "fold_err (add_arc n s) as (tout1, tin1) = Inr (tout', tin')"
    by (auto split: sum.splits)
  from Cons.IH [OF r] add_arc_lengths [OF a] show ?case by simp
qed

lemma states_loop_valid:
  assumes "fold_err (\<lambda>s. fold_err (add_arc n s) (arcs_of ifst s)) ss (tout, tin) = Inr r"
  shows "\<forall>s \<in> set ss. \<forall>a \<in> set (arcs_of ifst s). label_ok n a \<and> dest_ok (length tin) a"
  using assms
proof (induction ss arbitrary: tout tin)
  case Nil
  show ?case by simp
next
  case (Cons s ss)
  then obtain tout' tin' where
    a: "fold_err (add_arc n s) (arcs_of ifst s) (tout, tin) = Inr (tout', tin')" and
    r: "fold_err (\<lambda>s. fold_err (add_arc n s) (arcs_of ifst s)) ss (tout', tin') = Inr r"
    by (auto split: sum.splits)
  from Cons.IH [OF r] arcs_loop_lengths [OF a] arcs_loop_valid [OF a]
  show ?case by simp
qed

lemma collect_transitions_valid:
  "collect_transitions ifst n = Inr r \<Longrightarrow> valid_arcs ifst n"
  unfolding collect_transitions_def valid_arcs_def
  by (drule states_loop_valid) simp


lemma sint_pred:
  "sint (l - 1 :: int32) = (if sint l = - (2 ^ 31) then 2 ^ 31 - 1 else sint l - 1)"
proof -
  have b: "- (2 ^ 31) \<le> sint l" "sint l < 2 ^ 31"
    using sint_ge [of l] sint_lt [of l] by simp_all
  have "sint (l - 1) = (sint l - 1 + 2 ^ 31) mod 2 ^ 32 - 2 ^ 31"
    by (simp add: sint_word_ariths signed_take_bit_eq_take_bit_shift take_bit_eq_mod)
  then show ?thesis using b by (auto simp: mod_pos_pos_trivial)
qed

lemma bad_label_not_ok:
  assumes "sint (ilabel a) - 1 < 0 \<or> sint num_pdfs \<le> sint (ilabel a) - 1"
  shows "\<not> label_ok num_pdfs a"
proof -
  have "sint num_pdfs < 2 ^ 31" using sint_lt [of num_pdfs] by simp
  with assms show ?thesis
    by (auto simp: label_ok_def sint_pred split: if_splits)
qed

lemma arcs_loop_error:
  assumes "fold_err (add_arc n s) as (tout, tin) = Inl e"
    and "\<forall>a \<in> set as. dest_ok (length tin) a" and "s < length tout"
  shows "e = AssertFailure"
  using assms
proof (induction as arbitrary: tout tin)
  case Nil
  then show ?case by simp
next
  case (Cons a as)
  show ?case
  proof (cases "add_arc n s a (tout, tin)")
    case (Inl e')
    with Cons.prems show ?thesis
      by (auto simp: add_arc_def dest_ok_def Let_def split: if_splits)
  next
    case (Inr st)
    obtain tout' tin' where st: "st = (tout', tin')" by (cases st)
    from Inr st add_arc_lengths have "length tout' = length tout \<and> length tin' = length tin"
      by blast
    with Cons Inr st show ?thesis by auto
  qed
qed

lemma states_loop_error:
  assumes "fold_err (\<lambda>s. fold_err (add_arc n s) (arcs_of ifst s)) ss (tout, tin) = Inl e"
    and "\<forall>s \<in> set ss. s < length tout \<and> (\<forall>a \<in> set (arcs_of ifst s). dest_ok (length tin) a)"
  shows "e = AssertFailure"
  using assms
proof (induction ss arbitrary: tout tin)
  case Nil
  then show ?case by simp
next
  case (Cons s ss)
  show ?case
  proof (cases "fold_err (add_arc n s) (arcs_of ifst s) (tout, tin)")
    case (Inl e')
    with Cons.prems arcs_loop_error [of n s "arcs_of ifst s" tout tin e'] show ?thesis
      by simp
  next
    case (Inr st)
    obtain tout' tin' where st: "st = (tout', tin')" by (cases st)
    from Inr st arcs_loop_lengths have "length tout' = length tout \<and> length tin' = length tin"
      by blast
    with Cons Inr st show ?thesis by auto
  qed
qed

text \<open>
  Claim C5. If some arc's label minus one is negative or at least \<open>num_pdfs\<close>, then
  \<^verbatim>\<open>SetTransitions\<close> fails and the constructor fails with it: no object is produced.
  Where every arc leads to a state of the automaton, the failure is the assertion
  \<^verbatim>\<open>transition.pdf_id >= 0 && transition.pdf_id < num_pdfs\<close>.
\<close>

theorem C5_bad_label_aborts:
  assumes "s < NumStates ifst" and "a \<in> set (arcs_of ifst s)"
    and "sint (ilabel a) - 1 < 0 \<or> sint num_pdfs \<le> sint (ilabel a) - 1"
  shows "(\<exists>e. SetTransitions ifst num_pdfs = Inl e \<and> DenominatorGraph_new ifst num_pdfs = Inl e)
       \<and> (valid_dests ifst \<longrightarrow> DenominatorGraph_new ifst num_pdfs = Inl AssertFailure)"
proof -
  have bad: "\<not> valid_arcs ifst num_pdfs"
    using assms bad_label_not_ok [of a num_pdfs] by (auto simp: valid_arcs_def)
  then obtain e where e: "collect_transitions ifst num_pdfs = Inl e"
    using collect_transitions_valid [of ifst num_pdfs]
    by (cases "collect_transitions ifst num_pdfs") auto
  then have 1: "SetTransitions ifst num_pdfs = Inl e \<and> DenominatorGraph_new ifst num_pdfs = Inl e"
    by (simp add: SetTransitions_def DenominatorGraph_new_def)
  have "e = AssertFailure"
    if "valid_dests ifst"
    using e that [unfolded valid_dests_def]
      states_loop_error [of num_pdfs ifst "[0 ..< NumStates ifst]"
        "replicate (NumStates ifst) []" "replicate (NumStates ifst) []" e]
    by (simp add: collect_transitions_def)
  with 1 show ?thesis by auto
qed

theorem C5_bad_label_aborts_witness:
  "0 < NumStates (single_state (Fin 0) [arc0 0])
   \<and> arc0 0 \<in> set (arcs_of (single_state (Fin 0) [arc0 0]) 0)
   \<and> sint (ilabel (arc0 0)) - 1 < 0
   \<and> valid_dests (single_state (Fin 0) [arc0 0])
   \<and> SetTransitions (single_state (Fin 0) [arc0 0]) 1 = Inl AssertFailure
   \<and> DenominatorGraph_new (single_state (Fin 0) [arc0 0]) 1 = Inl AssertFailure"
  using C5_bad_label_aborts [of 0 "single_state (Fin 0) [arc0 0]" "arc0 0" 1]
  by (auto simp: single_state_def arc0_def NumStates_def arcs_of_def dest_ok_def valid_dests_def)

subsection \<open>The transition tables (claims C1 and C7)\<close>
















subsection \<open>SetInitialProbs\<close>

lemma flt_le_not_less: "flt_le a b \<Longrightarrow> \<not> flt_less b a"
  by (cases a; cases b) (auto simp: flt_le_def)

lemma flt_less_asym: "flt_less a b \<Longrightarrow> \<not> flt_less b a"
  by (cases a; cases b) auto

lemma normalize_loop_fails:
  assumes "s \<in> set ss"
    and "\<not> (flt_less (Fin 0) (tot_prob ifst s) \<and> flt_less (tot_prob ifst s) (Fin 100))"
  shows "fold_err (normalize_state ifst) ss nf = Inl AssertFailure"
  using assms
proof (induction ss arbitrary: nf)
  case Nil
  then show ?case by simp
next
  case (Cons x ss)
  show ?case
  proof (cases "normalize_state ifst x nf")
    case (Inl e)
    then have "e = AssertFailure" by (auto simp: normalize_state_def split: if_splits)
    with Inl show ?thesis by simp
  next
    case (Inr nf')
    then have "x \<noteq> s" using Cons.prems(2) by (auto simp: normalize_state_def split: if_splits)
    with Cons Inr show ?thesis by simp
  qed
qed

text \<open>
  Claim C6. If the total mass \<^verbatim>\<open>tot_prob\<close> of some state is non-positive or exceeds 100,
  the assertion \<^verbatim>\<open>tot_prob > 0.0 && tot_prob < 100.0\<close> fails: \<^verbatim>\<open>SetInitialProbs\<close> aborts
  before any propagation, and the constructor produces no object.
\<close>

theorem C6_implausible_mass_aborts:
  assumes "s < NumStates ifst"
    and "flt_le (tot_prob ifst s) (Fin 0) \<or> flt_less (Fin 100) (tot_prob ifst s)"
  shows "SetInitialProbs ifst = Inl AssertFailure
       \<and> (\<exists>e. DenominatorGraph_new ifst num_pdfs = Inl e)"
proof -
  have "\<not> (flt_less (Fin 0) (tot_prob ifst s) \<and> flt_less (tot_prob ifst s) (Fin 100))"
    using assms(2) flt_le_not_less flt_less_asym by blast
  with assms(1) have "normalizing_factors ifst = Inl AssertFailure"
    unfolding normalizing_factors_def by (intro normalize_loop_fails [of s]) simp_all
  then have "SetInitialProbs ifst = Inl AssertFailure"
    by (simp add: SetInitialProbs_def avg_prob_of_def)
  then show ?thesis
    by (auto simp: DenominatorGraph_new_def split: sum.splits)
qed

theorem C6_implausible_mass_aborts_witness:
  "0 < NumStates (single_state PInf [])
   \<and> flt_le (tot_prob (single_state PInf []) 0) (Fin 0)
   \<and> SetInitialProbs (single_state PInf []) = Inl AssertFailure
   \<and> DenominatorGraph_new (single_state PInf []) 1 = Inl AssertFailure"
  using C6_implausible_mass_aborts [of 0 "single_state PInf []" 1]
  by (auto simp: single_state_def NumStates_def tot_prob_def arcs_of_def exp_neg_def flt_le_def
      DenominatorGraph_new_def SetTransitions_def collect_transitions_def flatten_def
      flatten_step_def)

lemma flt_add_NaN [simp]: "flt_add a NaN = NaN"
  by (cases a) simp_all

lemma flt_mul_NaN [simp]: "flt_mul a NaN = NaN"
  by (cases a) simp_all

lemma single_iteration:
  "iteration (single_state (Fin 0) []) n nf ([c], [Fin 0], [a]) = Inr ([NaN], [Fin 0], [NaN])"
  by (simp add: single_state_def iteration_def NumStates_def propagate_state_def arcs_of_def
      Vector_Scale_def Vector_Sum_def Vector_AddVec_def Let_def)

lemma single_iterations:
  "iterations (Suc k) (single_state (Fin 0) []) n nf ([c], [Fin 0], [a])
     = Inr ([NaN], [Fin 0], [NaN])"
  by (induction k arbitrary: c a) (simp_all add: single_iteration)

lemma single_avg_prob: "avg_prob_of (single_state (Fin 0) []) = Inr [NaN]"
proof -
  have nf: "normalizing_factors (single_state (Fin 0) []) = Inr [Fin 1]"
    by (simp add: normalizing_factors_def normalize_state_def tot_prob_def exp_neg_def
        single_state_def NumStates_def arcs_of_def)
  have "iterations (Suc 99) (single_state (Fin 0) []) 100 [Fin 1] ([Fin 1], [Fin 0], [Fin 0])
          = Inr ([NaN], [Fin 0], [NaN])"
    by (rule single_iterations)
  then show ?thesis
    by (simp add: avg_prob_of_def nf Let_def) (simp add: single_state_def NumStates_def)
qed

lemma reach_single: "NumStatesThatCanReach (single_state w []) 0 = Inr 1"
  by (simp add: NumStatesThatCanReach_def single_state_def NumStates_def reverse_transitions_of_def arcs_of_def)

text \<open>
  Claim C8, evaluated on the automaton it describes: one state, the start state, without
  arcs and with final weight 0. Its total mass is 1, so the assertion passes. The first
  iteration leaves \<^verbatim>\<open>cur_prob\<close> all zero, \<^verbatim>\<open>1.0 / cur_prob.Sum()\<close> is infinite and the scaled
  entry is \<open>0 * inf = NaN\<close>: the estimator returns NaN for the state, not 1.0.
\<close>

theorem C8_single_state_nan:
  "tot_prob (single_state (Fin 0) []) 0 = Fin 1
   \<and> SetInitialProbs (single_state (Fin 0) []) = Inr ([NaN], 0)"
proof -
  have "tot_prob (single_state (Fin 0) []) 0 = Fin 1"
    by (simp add: tot_prob_def single_state_def arcs_of_def exp_neg_def)
  moreover have "ComputeSpecialState (single_state (Fin 0) []) [NaN] = Inr 0"
    by (simp add: ComputeSpecialState_def scanned_candidates_def candidate_pairs_def
        std_sort_def pair_less_def min_states_can_reach_def reach_single)
  ultimately show ?thesis
    by (simp add: SetInitialProbs_def single_avg_prob)
qed

lemmas eval_defs = NumStates_def arcs_of_def exp_neg_def arc1_def Let_def
  tot_prob_def normalizing_factors_def normalize_state_def
  iteration_def propagate_state_def propagate_arc_def
  Vector_Scale_def Vector_Sum_def Vector_AddVec_def

lemma chain_nf: "normalizing_factors dead_end_chain = Inr [Fin 1, Fin 1]"
  by (simp add: dead_end_chain_def eval_defs upt_rec)

lemma chain_it1:
  "iteration dead_end_chain 100 [Fin 1, Fin 1] ([Fin 1, Fin 0], [Fin 0, Fin 0], [Fin 0, Fin 0])
     = Inr ([Fin 0, Fin 1], [Fin 0, Fin 0], [Fin 0, Fin (1 / 100)])"
  by (simp add: dead_end_chain_def eval_defs upt_rec)

lemma chain_it2:
  "iteration dead_end_chain n [Fin 1, Fin 1] ([Fin 0, c], [Fin 0, Fin 0], [a0, a1])
     = Inr ([NaN, NaN], [Fin 0, Fin 0], [NaN, NaN])"
  by (simp add: dead_end_chain_def eval_defs upt_rec)

lemma chain_it3:
  "iteration dead_end_chain n [Fin 1, Fin 1] ([NaN, c], [Fin 0, Fin 0], [a0, a1])
     = Inr ([NaN, NaN], [Fin 0, Fin 0], [NaN, NaN])"
  by (simp add: dead_end_chain_def eval_defs upt_rec)

lemma chain_its:
  "iterations k dead_end_chain n [Fin 1, Fin 1] ([NaN, NaN], [Fin 0, Fin 0], [NaN, NaN])
     = Inr ([NaN, NaN], [Fin 0, Fin 0], [NaN, NaN])"
  by (induction k) (simp_all add: chain_it3)

lemma chain_avg_prob: "avg_prob_of dead_end_chain = Inr [NaN, NaN]"
proof -
  have "iterations (Suc (Suc k)) dead_end_chain 100 [Fin 1, Fin 1]
          ([Fin 1, Fin 0], [Fin 0, Fin 0], [Fin 0, Fin 0])
        = Inr ([NaN, NaN], [Fin 0, Fin 0], [NaN, NaN])" for k
    by (simp add: chain_it1 chain_it2 chain_its)
  from this [of 98] show ?thesis
    by (simp add: avg_prob_of_def chain_nf Let_def) (simp add: dead_end_chain_def NumStates_def)
qed

lemma chain_reach0: "NumStatesThatCanReach dead_end_chain 0 = Inr 1"
  by (simp add: NumStatesThatCanReach_def reverse_transitions_of_def add_reverse_def
      dead_end_chain_def eval_defs upt_rec visit_prev_def)

text \<open>
  Claim C2, evaluated on \<open>dead_end_chain\<close>: both states have total mass 1, the constructor's
  assertions pass, and the vector that \<^verbatim>\<open>SetInitialProbs\<close> stores is NaN in every entry, so
  no entry is \<open>\<ge> 0\<close> and the entries do not sum to 1.
\<close>

theorem C2_dead_end_gives_nan:
  "tot_prob dead_end_chain 0 = Fin 1
   \<and> tot_prob dead_end_chain 1 = Fin 1
   \<and> SetInitialProbs dead_end_chain = Inr ([NaN, NaN], 0)
   \<and> \<not> flt_le (Fin 0) NaN
   \<and> Vector_Sum [NaN, NaN] = NaN"
proof -
  have "ComputeSpecialState dead_end_chain [NaN, NaN] = Inr 0"
    by (simp add: ComputeSpecialState_def scanned_candidates_def candidate_pairs_def
        std_sort_def pair_less_def min_states_can_reach_def chain_reach0 upt_rec)
  then have "SetInitialProbs dead_end_chain = Inr ([NaN, NaN], 0)"
    by (simp add: SetInitialProbs_def chain_avg_prob)
  moreover have "tot_prob dead_end_chain 0 = Fin 1" "tot_prob dead_end_chain 1 = Fin 1"
    by (simp_all add: dead_end_chain_def eval_defs)
  ultimately show ?thesis
    by (simp add: flt_le_def Vector_Sum_def)
qed

subsection \<open>The estimate where no mass is lost\<close>

lemma exp_neg_weight: "is_weight w \<Longrightarrow> exp_neg w = Fin (weight_prob w)"
  by (cases w) (simp_all add: is_weight_def weight_prob_def exp_neg_def)

lemma weight_prob_nonneg: "0 \<le> weight_prob w"
  by (cases w) (simp_all add: weight_prob_def)

lemma arc_mass_nonneg: "0 \<le> arc_mass ifst s"
  unfolding arc_mass_def by (rule sum_list_nonneg) (auto simp: weight_prob_nonneg)

lemma tot_prob_loop:
  assumes "\<forall>a \<in> set as. is_weight (weight a)"
  shows "fold (\<lambda>arc tot. flt_add tot (exp_neg (weight arc))) as (Fin x)
           = Fin (x + sum_list (map (\<lambda>a. weight_prob (weight a)) as))"
  using assms by (induction as arbitrary: x) (simp_all add: exp_neg_weight add.assoc)

lemma tot_prob_mass:
  assumes "no_dead_ends ifst" and "s < NumStates ifst"
  shows "tot_prob ifst s = Fin (mass ifst s)"
  using assms
  by (simp add: no_dead_ends_def tot_prob_def mass_def arc_mass_def exp_neg_weight tot_prob_loop)

lemma mass_bounds:
  assumes "no_dead_ends ifst" and "s < NumStates ifst"
  shows "0 < mass ifst s" and "mass ifst s < 100"
  using assms weight_prob_nonneg [of "final (states ifst ! s)"]
  by (auto simp: no_dead_ends_def mass_def intro: add_nonneg_pos)

lemma normalize_loop:
  assumes "no_dead_ends ifst" and "k \<le> NumStates ifst"
  shows "fold_err (normalize_state ifst) [0 ..< k] (replicate (NumStates ifst) (Fin 0))
           = Inr (map (\<lambda>s. if s < k then Fin (1 / mass ifst s) else Fin 0) [0 ..< NumStates ifst])"
  using assms(2)
proof (induction k)
  case 0
  show ?case by (simp add: map_replicate_const)
next
  case (Suc k)
  then have kN: "k < NumStates ifst" by simp
  let ?nf = "map (\<lambda>s. if s < k then Fin (1 / mass ifst s) else Fin 0) [0 ..< NumStates ifst]"
  have m: "0 < mass ifst k" "mass ifst k < 100"
    using mass_bounds [OF assms(1) kN] by simp_all
  have "normalize_state ifst k ?nf = Inr (?nf[k := Fin (1 / mass ifst k)])"
    using m by (simp add: normalize_state_def tot_prob_mass [OF assms(1) kN])
  moreover have "?nf[k := Fin (1 / mass ifst k)]
      = map (\<lambda>s. if s < Suc k then Fin (1 / mass ifst s) else Fin 0) [0 ..< NumStates ifst]"
    using kN by (auto simp: list_eq_iff_nth_eq nth_list_update less_Suc_eq)
  ultimately show ?case using Suc kN by (simp add: fold_err_append)
qed

lemma normalizing_factors_ok:
  assumes "no_dead_ends ifst"
  shows "normalizing_factors ifst = Inr (map (\<lambda>s. Fin (1 / mass ifst s)) [0 ..< NumStates ifst])"
proof -
  have "map (\<lambda>s. if s < NumStates ifst then Fin (1 / mass ifst s) else Fin 0) [0 ..< NumStates ifst]
          = map (\<lambda>s. Fin (1 / mass ifst s)) [0 ..< NumStates ifst]"
    by simp
  then show ?thesis
    using normalize_loop [OF assms order_refl] by (simp add: normalizing_factors_def)
qed

lemma sum_list_add_at:
  "d < length xs \<Longrightarrow> sum_list (xs[d := xs ! d + c]) = sum_list xs + (c::real)"
proof (induction xs arbitrary: d)
  case Nil
  then show ?case by simp
next
  case (Cons x xs)
  then show ?case by (cases d) simp_all
qed

lemma propagate_arc_fin:
  assumes "is_weight (weight a)" and "dest_ok (length nx) a"
  shows "propagate_arc (Fin pr) a (map Fin nx)
           = Inr (map Fin (nx[nat (nextstate a)
                    := nx ! nat (nextstate a) + pr * weight_prob (weight a)]))"
proof -
  have "nat (nextstate a) < length nx" using assms(2) by (auto simp: dest_ok_def)
  then show ?thesis
    using assms by (simp add: propagate_arc_def dest_ok_def Let_def exp_neg_weight map_update)
qed

lemma propagate_arcs:
  assumes "\<forall>a \<in> set as. is_weight (weight a) \<and> dest_ok (length nx) a"
    and "0 \<le> pr" and "\<forall>x \<in> set nx. 0 \<le> x"
  shows "\<exists>nx'. fold_err (propagate_arc (Fin pr)) as (map Fin nx) = Inr (map Fin nx')
          \<and> length nx' = length nx \<and> (\<forall>x \<in> set nx'. 0 \<le> x)
          \<and> sum_list nx' = sum_list nx + pr * sum_list (map (\<lambda>a. weight_prob (weight a)) as)"
  using assms
proof (induction as arbitrary: nx)
  case Nil
  then show ?case by (intro exI [of _ nx]) simp
next
  case (Cons a as)
  let ?d = "nat (nextstate a)"
  let ?nx = "nx[?d := nx ! ?d + pr * weight_prob (weight a)]"
  have d: "?d < length nx" using Cons.prems(1) by (auto simp: dest_ok_def)
  have step: "propagate_arc (Fin pr) a (map Fin nx) = Inr (map Fin ?nx)"
    using Cons.prems(1) by (simp add: propagate_arc_fin)
  have "0 \<le> nx ! ?d + pr * weight_prob (weight a)"
    using Cons.prems(2,3) d weight_prob_nonneg [of "weight a"] by simp
  then have nn: "\<forall>x \<in> set ?nx. 0 \<le> x"
    using Cons.prems(3) set_update_subset_insert [of nx ?d] by fastforce
  have "\<forall>a \<in> set as. is_weight (weight a) \<and> dest_ok (length ?nx) a"
    using Cons.prems(1) by simp
  from Cons.IH [OF this Cons.prems(2) nn] obtain nx' where
    r: "fold_err (propagate_arc (Fin pr)) as (map Fin ?nx) = Inr (map Fin nx')"
    and l: "length nx' = length ?nx" and n': "\<forall>x \<in> set nx'. 0 \<le> x"
    and s: "sum_list nx' = sum_list ?nx + pr * sum_list (map (\<lambda>a. weight_prob (weight a)) as)"
    by auto
  have "sum_list nx' = sum_list nx + pr * sum_list (map (\<lambda>a. weight_prob (weight a)) (a # as))"
    using s d by (simp add: sum_list_add_at distrib_left)
  with step r l n' show ?case by auto
qed

lemma propagate_states:
  assumes "no_dead_ends ifst" and "length cur = NumStates ifst" and "\<forall>x \<in> set cur. 0 \<le> x"
    and "\<forall>s \<in> set ss. s < NumStates ifst"
    and "length nx = NumStates ifst" and "\<forall>x \<in> set nx. 0 \<le> x"
  shows "\<exists>nx'. fold_err (propagate_state ifst (map (\<lambda>s. Fin (1 / mass ifst s)) [0 ..< NumStates ifst])
                         (map Fin cur)) ss (map Fin nx) = Inr (map Fin nx')
          \<and> length nx' = NumStates ifst \<and> (\<forall>x \<in> set nx'. 0 \<le> x)
          \<and> sum_list nx' = sum_list nx
               + sum_list (map (\<lambda>s. cur ! s / mass ifst s * arc_mass ifst s) ss)"
  using assms(4,5,6)
proof (induction ss arbitrary: nx)
  case Nil
  then show ?case by (intro exI [of _ nx]) simp
next
  case (Cons s ss)
  let ?N = "NumStates ifst"
  let ?nf = "map (\<lambda>s. Fin (1 / mass ifst s)) [0 ..< ?N]"
  have s: "s < ?N" using Cons.prems(1) by simp
  have m: "0 < mass ifst s" using mass_bounds(1) [OF assms(1) s] .
  have c: "0 \<le> cur ! s" using assms(2,3) s by simp
  have pr: "flt_mul (map Fin cur ! s) (?nf ! s) = Fin (cur ! s / mass ifst s)"
    using s assms(2) by simp
  have "0 \<le> cur ! s / mass ifst s" using c m by simp
  moreover have "\<forall>a \<in> set (arcs_of ifst s). is_weight (weight a) \<and> dest_ok (length nx) a"
    using assms(1) s Cons.prems(2) by (simp add: no_dead_ends_def valid_dests_def)
  ultimately obtain nx1 where
    a: "fold_err (propagate_arc (Fin (cur ! s / mass ifst s))) (arcs_of ifst s) (map Fin nx)
          = Inr (map Fin nx1)"
    and l1: "length nx1 = length nx" and n1: "\<forall>x \<in> set nx1. 0 \<le> x"
    and s1: "sum_list nx1 = sum_list nx + cur ! s / mass ifst s * arc_mass ifst s"
    using propagate_arcs [of "arcs_of ifst s" nx "cur ! s / mass ifst s"] Cons.prems(3)
    unfolding arc_mass_def by blast
  have st: "propagate_state ifst ?nf (map Fin cur) s (map Fin nx) = Inr (map Fin nx1)"
    using a by (simp only: propagate_state_def Let_def pr)
  have "\<forall>s \<in> set ss. s < ?N" "length nx1 = ?N"
    using Cons.prems(1,2) l1 by simp_all
  from Cons.IH [OF this n1] obtain nx' where
    r: "fold_err (propagate_state ifst ?nf (map Fin cur)) ss (map Fin nx1) = Inr (map Fin nx')"
    and l: "length nx' = ?N" and n': "\<forall>x \<in> set nx'. 0 \<le> x"
    and s': "sum_list nx' = sum_list nx1
               + sum_list (map (\<lambda>s. cur ! s / mass ifst s * arc_mass ifst s) ss)"
    by auto
  from st r l n' s' s1 show ?case by auto
qed

lemma Vector_Sum_fin: "Vector_Sum (map Fin xs) = Fin (sum_list xs)"
proof -
  have "fold (\<lambda>x acc. flt_add acc x) (map Fin xs) (Fin a) = Fin (a + sum_list xs)" for a
    by (induction xs arbitrary: a) (simp_all add: add.assoc)
  from this [of 0] show ?thesis by (simp add: Vector_Sum_def)
qed

lemma Vector_Scale_fin: "Vector_Scale (Fin c) (map Fin xs) = map Fin (map (\<lambda>x. x * c) xs)"
  by (simp add: Vector_Scale_def)

lemma Vector_AddVec_fin:
  "Vector_AddVec (Fin c) (map Fin v) (map Fin a)
     = map Fin (map (\<lambda>(x, y). x + c * y) (zip a v))"
  by (simp add: Vector_AddVec_def zip_map_map split_def)

lemma sum_list_axpy:
  assumes "length a = length v"
  shows "sum_list (map (\<lambda>(x, y). x + c * y) (zip a v)) = sum_list a + (c::real) * sum_list v"
  using assms by (induction a v rule: list_induct2) (simp_all add: distrib_left)

lemma nonneg_axpy:
  assumes "length a = length v" and "\<forall>x \<in> set a. 0 \<le> x" and "\<forall>y \<in> set v. 0 \<le> y"
    and "0 \<le> (c::real)"
  shows "\<forall>z \<in> set (map (\<lambda>(x, y). x + c * y) (zip a v)). 0 \<le> z"
  using assms by (induction a v rule: list_induct2) simp_all

lemma outflow_positive:
  assumes "no_dead_ends ifst" and "length cur = NumStates ifst"
    and "\<forall>x \<in> set cur. 0 \<le> x" and "sum_list cur = 1"
  shows "0 < sum_list (map (\<lambda>s. cur ! s / mass ifst s * arc_mass ifst s) [0 ..< NumStates ifst])"
proof -
  let ?N = "NumStates ifst"
  let ?f = "\<lambda>s. cur ! s / mass ifst s * arc_mass ifst s"
  have pos: "0 < arc_mass ifst s / mass ifst s" if "s < ?N" for s
    using assms(1) that mass_bounds(1) [OF assms(1) that] by (simp add: no_dead_ends_def)
  have nn: "0 \<le> cur ! s" if "s < ?N" for s
    using assms(2,3) that by simp
  have "\<exists>s < ?N. 0 < cur ! s"
  proof (rule ccontr)
    assume "\<not> (\<exists>s < ?N. 0 < cur ! s)"
    then have le: "\<forall>s \<in> {0 ..< ?N}. cur ! s \<le> 0"
      by (metis atLeastLessThan_iff not_less)
    have "(\<Sum>s = 0 ..< ?N. cur ! s) \<le> 0"
    proof (rule sum_nonpos)
      fix i assume "i \<in> {0 ..< ?N}"
      with le show "cur ! i \<le> 0" by blast
    qed
    then show False using assms(2,4) by (simp add: sum_list_sum_nth)
  qed
  then obtain s where s: "s < ?N" "0 < cur ! s" by auto
  have "0 < (\<Sum>s = 0 ..< ?N. ?f s)"
  proof (rule sum_pos2 [of _ s])
    show "finite {0 ..< ?N}" by simp
    show "s \<in> {0 ..< ?N}" using s by simp
    have f: "?f i = cur ! i * (arc_mass ifst i / mass ifst i)" for i by simp
    show "0 < ?f s" unfolding f using s pos [OF s(1)] by (intro mult_pos_pos)
    show "0 \<le> ?f i" if "i \<in> {0 ..< ?N}" for i
      unfolding f using that nn [of i] pos [of i] by (intro mult_nonneg_nonneg) simp_all
  qed
  then show ?thesis by (simp add: interv_sum_list_conv_sum_set_nat)
qed

lemma iteration_fin:
  assumes "no_dead_ends ifst" and "length cur = NumStates ifst"
    and "\<forall>x \<in> set cur. 0 \<le> x" and "sum_list cur = 1"
    and "length avg = NumStates ifst" and "\<forall>x \<in> set avg. 0 \<le> x"
  shows "\<exists>cur' avg'.
           iteration ifst 100 (map (\<lambda>s. Fin (1 / mass ifst s)) [0 ..< NumStates ifst])
             (map Fin cur, replicate (NumStates ifst) (Fin 0), map Fin avg)
           = Inr (map Fin cur', replicate (NumStates ifst) (Fin 0), map Fin avg')
         \<and> length cur' = NumStates ifst \<and> (\<forall>x \<in> set cur'. 0 \<le> x) \<and> sum_list cur' = 1
         \<and> length avg' = NumStates ifst \<and> (\<forall>x \<in> set avg'. 0 \<le> x)
         \<and> sum_list avg' = sum_list avg + 1 / 100"
proof -
  let ?N = "NumStates ifst"
  let ?nf = "map (\<lambda>s. Fin (1 / mass ifst s)) [0 ..< ?N]"
  have z: "replicate ?N (Fin 0) = map Fin (replicate ?N 0)" by simp
  have "\<exists>nx'. fold_err (propagate_state ifst ?nf (map Fin cur)) [0 ..< ?N]
                 (map Fin (replicate ?N 0)) = Inr (map Fin nx')
          \<and> length nx' = ?N \<and> (\<forall>x \<in> set nx'. 0 \<le> x)
          \<and> sum_list nx' = sum_list (replicate ?N 0)
               + sum_list (map (\<lambda>s. cur ! s / mass ifst s * arc_mass ifst s) [0 ..< ?N])"
    by (rule propagate_states [OF assms(1,2,3)]) simp_all
  then obtain nx where
    run: "fold_err (propagate_state ifst ?nf (map Fin cur)) [0 ..< ?N] (map Fin (replicate ?N 0))
            = Inr (map Fin nx)"
    and l: "length nx = ?N" and nn: "\<forall>x \<in> set nx. 0 \<le> x"
    and sm0: "sum_list nx = sum_list (replicate ?N 0)
               + sum_list (map (\<lambda>s. cur ! s / mass ifst s * arc_mass ifst s) [0 ..< ?N])"
    by blast
  have "sum_list (replicate ?N (0::real)) = 0" by (simp add: sum_list_replicate)
  with sm0 have sm: "sum_list nx
      = sum_list (map (\<lambda>s. cur ! s / mass ifst s * arc_mass ifst s) [0 ..< ?N])"
    by simp
  define S where "S = sum_list nx"
  have S: "0 < S" unfolding S_def sm using assms(1,2,3,4) by (rule outflow_positive)
  define cur' where "cur' = map (\<lambda>x. x * (1 / S)) nx"
  define avg' where "avg' = map (\<lambda>(x, y). x + (1 / 100) * y) (zip avg cur')"
  have lc: "length cur' = ?N" by (simp add: cur'_def l)
  have nc: "\<forall>x \<in> set cur'. 0 \<le> x" using nn S by (simp add: cur'_def)
  have "sum_list cur' = sum_list nx * (1 / S)"
    unfolding cur'_def by (induction nx) (simp_all add: add_divide_distrib)
  then have sc: "sum_list cur' = 1" using S by (simp add: S_def)
  have la: "length avg' = ?N" by (simp add: avg'_def lc assms(5))
  have na: "\<forall>x \<in> set avg'. 0 \<le> x"
    unfolding avg'_def using assms(5,6) lc nc by (intro nonneg_axpy) simp_all
  have "sum_list avg' = sum_list avg + (1 / 100) * sum_list cur'"
    unfolding avg'_def using assms(5) lc by (intro sum_list_axpy) simp
  then have sa: "sum_list avg' = sum_list avg + 1 / 100" using sc by simp
  have run': "fold_err (propagate_state ifst ?nf (map Fin cur)) [0 ..< ?N] (replicate ?N (Fin 0))
            = Inr (map Fin nx)"
    using run by (simp only: z)
  have e0: "flt_div (Fin 1) (Vector_Sum (map Fin nx)) = Fin (1 / S)"
    using S by (simp add: Vector_Sum_fin S_def)
  have e1: "Vector_Scale (Fin (1 / S)) (map Fin nx) = map Fin cur'"
    by (simp only: Vector_Scale_fin cur'_def)
  have e2: "flt_div (Fin 1) (Fin (real 100)) = Fin (1 / 100)" by simp
  have e3: "Vector_AddVec (Fin (1 / 100)) (map Fin cur') (map Fin avg) = map Fin avg'"
    by (simp only: Vector_AddVec_fin avg'_def)
  have "iteration ifst 100 ?nf (map Fin cur, replicate ?N (Fin 0), map Fin avg)
          = Inr (map Fin cur', replicate ?N (Fin 0), map Fin avg')"
    unfolding iteration_def
    by (simp only: prod.case run' sum.case Let_def e0 e1 e2 e3)
  with lc nc sc la na sa show ?thesis by blast
qed

lemma iterations_fin:
  assumes "no_dead_ends ifst" and "length cur = NumStates ifst"
    and "\<forall>x \<in> set cur. 0 \<le> x" and "sum_list cur = 1"
    and "length avg = NumStates ifst" and "\<forall>x \<in> set avg. 0 \<le> x"
  shows "\<exists>cur' avg'.
           iterations k ifst 100 (map (\<lambda>s. Fin (1 / mass ifst s)) [0 ..< NumStates ifst])
             (map Fin cur, replicate (NumStates ifst) (Fin 0), map Fin avg)
           = Inr (map Fin cur', replicate (NumStates ifst) (Fin 0), map Fin avg')
         \<and> length avg' = NumStates ifst \<and> (\<forall>x \<in> set avg'. 0 \<le> x)
         \<and> sum_list avg' = sum_list avg + real k / 100"
  using assms(2-)
proof (induction k arbitrary: cur avg)
  case 0
  then show ?case by (intro exI [of _ cur] exI [of _ avg]) simp
next
  case (Suc k)
  from iteration_fin [OF assms(1) Suc.prems] obtain cur1 avg1 where
    it: "iteration ifst 100 (map (\<lambda>s. Fin (1 / mass ifst s)) [0 ..< NumStates ifst])
           (map Fin cur, replicate (NumStates ifst) (Fin 0), map Fin avg)
         = Inr (map Fin cur1, replicate (NumStates ifst) (Fin 0), map Fin avg1)"
    and c1: "length cur1 = NumStates ifst" "\<forall>x \<in> set cur1. 0 \<le> x" "sum_list cur1 = 1"
    and a1: "length avg1 = NumStates ifst" "\<forall>x \<in> set avg1. 0 \<le> x"
    and s1: "sum_list avg1 = sum_list avg + 1 / 100"
    by blast
  from Suc.IH [OF c1 a1] obtain cur' avg' where
    r: "iterations k ifst 100 (map (\<lambda>s. Fin (1 / mass ifst s)) [0 ..< NumStates ifst])
          (map Fin cur1, replicate (NumStates ifst) (Fin 0), map Fin avg1)
        = Inr (map Fin cur', replicate (NumStates ifst) (Fin 0), map Fin avg')"
    and a': "length avg' = NumStates ifst" "\<forall>x \<in> set avg'. 0 \<le> x"
    and s': "sum_list avg' = sum_list avg1 + real k / 100"
    by blast
  have "sum_list avg' = sum_list avg + real (Suc k) / 100"
    using s' s1 by (simp add: add_divide_distrib)
  with it r a' show ?case by (intro exI [of _ cur'] exI [of _ avg']) simp
qed

text \<open>
  Where no mass is lost entirely, and with exact arithmetic on finite values, the estimate
  is a distribution: every entry is finite and non-negative and the entries sum to 1.
\<close>

lemma estimate_is_distribution:
  assumes "no_dead_ends ifst"
  shows "\<exists>avg. avg_prob_of ifst = Inr avg \<and> length avg = NumStates ifst
           \<and> list_all is_prob avg \<and> Vector_Sum avg = Fin 1"
proof -
  let ?N = "NumStates ifst"
  let ?nf = "map (\<lambda>s. Fin (1 / mass ifst s)) [0 ..< ?N]"
  let ?cur = "(replicate ?N (0::real))[nat (start ifst) := 1]"
  have st: "0 \<le> start ifst" "start ifst < int ?N" "nat (start ifst) < ?N"
    using assms by (auto simp: no_dead_ends_def)
  have c: "length ?cur = ?N" "\<forall>x \<in> set ?cur. 0 \<le> x"
    using set_update_subset_insert [of "replicate ?N (0::real)" "nat (start ifst)" 1]
    by auto
  have "sum_list ((replicate ?N (0::real))[nat (start ifst)
          := replicate ?N 0 ! nat (start ifst) + 1]) = sum_list (replicate ?N 0) + 1"
    using st(3) by (intro sum_list_add_at) simp
  then have s: "sum_list ?cur = 1" using st(3) by (simp add: sum_list_replicate)
  have a: "length (replicate ?N (0::real)) = ?N" "\<forall>x \<in> set (replicate ?N (0::real)). 0 \<le> x"
    by simp_all
  from iterations_fin [OF assms c s a, of 100] obtain cur' avg' where
    r: "iterations 100 ifst 100 ?nf (map Fin ?cur, replicate ?N (Fin 0), map Fin (replicate ?N 0))
          = Inr (map Fin cur', replicate ?N (Fin 0), map Fin avg')"
    and a': "length avg' = ?N" "\<forall>x \<in> set avg'. 0 \<le> x"
    and s': "sum_list avg' = sum_list (replicate ?N 0) + real 100 / 100"
    by blast
  have m: "map Fin ?cur = (replicate ?N (Fin 0))[nat (start ifst) := Fin 1]"
    by (simp add: map_update)
  have "avg_prob_of ifst = Inr (map Fin avg')"
    using r st(1,2)
    by (simp add: avg_prob_of_def Let_def normalizing_factors_ok [OF assms] m)
  moreover have "list_all is_prob (map Fin avg')"
    using a'(2) by (simp add: list_all_iff is_prob_def)
  moreover have "Vector_Sum (map Fin avg') = Fin 1"
    using s' by (simp add: Vector_Sum_fin sum_list_replicate)
  ultimately show ?thesis using a'(1) by (intro exI [of _ "map Fin avg'"]) simp
qed

subsection \<open>NumStatesThatCanReach (claim C4)\<close>

lemma add_reverse_ok:
  assumes "dest_ok (length rt) a"
  shows "add_reverse s a rt = Inr (rt[nat (nextstate a) := rt ! nat (nextstate a) @ [s]])"
  using assms by (simp add: add_reverse_def dest_ok_def Let_def)

lemma reverse_arcs_loop:
  assumes "\<forall>a \<in> set as. dest_ok (length rt) a"
  shows "\<exists>rt'. fold_err (add_reverse s) as rt = Inr rt' \<and> length rt' = length rt
          \<and> (\<forall>d < length rt. set (rt' ! d)
                = set (rt ! d) \<union> {x. x = s \<and> (\<exists>a \<in> set as. nextstate a = int d)})"
  using assms
proof (induction as arbitrary: rt)
  case Nil
  show ?case by simp
next
  case (Cons a as)
  let ?rt = "rt[nat (nextstate a) := rt ! nat (nextstate a) @ [s]]"
  have d: "dest_ok (length rt) a" using Cons.prems by simp
  have a: "add_reverse s a rt = Inr ?rt" using d by (rule add_reverse_ok)
  have "\<forall>a \<in> set as. dest_ok (length ?rt) a" using Cons.prems by simp
  from Cons.IH [OF this] obtain rt' where
    r: "fold_err (add_reverse s) as ?rt = Inr rt'" and l: "length rt' = length rt"
    and c: "\<forall>d < length rt. set (rt' ! d)
              = set (?rt ! d) \<union> {x. x = s \<and> (\<exists>a \<in> set as. nextstate a = int d)}"
    by auto
  have "\<forall>d < length rt. set (rt' ! d)
          = set (rt ! d) \<union> {x. x = s \<and> (\<exists>a \<in> set (a # as). nextstate a = int d)}"
  proof (intro allI impI)
    fix e assume e: "e < length rt"
    show "set (rt' ! e) = set (rt ! e) \<union> {x. x = s \<and> (\<exists>a \<in> set (a # as). nextstate a = int e)}"
    proof (cases "nextstate a = int e")
      case True
      then have "nat (nextstate a) = e" by simp
      with c e True show ?thesis by auto
    next
      case False
      then have "nat (nextstate a) \<noteq> e" using d by (auto simp: dest_ok_def)
      with c e False show ?thesis by auto
    qed
  qed
  with a r l show ?case by simp
qed

lemma reverse_states_loop:
  assumes "\<forall>s \<in> set ss. \<forall>a \<in> set (arcs_of ifst s). dest_ok (length rt) a"
  shows "\<exists>rt'. fold_err (\<lambda>s. fold_err (add_reverse s) (arcs_of ifst s)) ss rt = Inr rt'
          \<and> length rt' = length rt
          \<and> (\<forall>d < length rt. set (rt' ! d)
                = set (rt ! d) \<union> {s \<in> set ss. \<exists>a \<in> set (arcs_of ifst s). nextstate a = int d})"
  using assms
proof (induction ss arbitrary: rt)
  case Nil
  show ?case by simp
next
  case (Cons s ss)
  then have "\<forall>a \<in> set (arcs_of ifst s). dest_ok (length rt) a" by simp
  from reverse_arcs_loop [OF this, of s] obtain rt1 where
    a: "fold_err (add_reverse s) (arcs_of ifst s) rt = Inr rt1" and l1: "length rt1 = length rt"
    and c1: "\<forall>d < length rt. set (rt1 ! d)
               = set (rt ! d) \<union> {x. x = s \<and> (\<exists>a \<in> set (arcs_of ifst s). nextstate a = int d)}"
    by auto
  have "\<forall>s \<in> set ss. \<forall>a \<in> set (arcs_of ifst s). dest_ok (length rt1) a"
    using Cons.prems l1 by simp
  from Cons.IH [OF this] obtain rt' where
    r: "fold_err (\<lambda>s. fold_err (add_reverse s) (arcs_of ifst s)) ss rt1 = Inr rt'"
    and l: "length rt' = length rt1"
    and c: "\<forall>d < length rt1. set (rt' ! d)
              = set (rt1 ! d) \<union> {s \<in> set ss. \<exists>a \<in> set (arcs_of ifst s). nextstate a = int d}"
    by auto
  have "\<forall>d < length rt. set (rt' ! d)
          = set (rt ! d) \<union> {x \<in> set (s # ss). \<exists>a \<in> set (arcs_of ifst x). nextstate a = int d}"
    using c c1 l1 by auto
  with a r l l1 show ?case by simp
qed

lemma reverse_transitions_ok:
  assumes "valid_dests ifst"
  shows "\<exists>rt. reverse_transitions_of ifst = Inr rt \<and> length rt = NumStates ifst
          \<and> (\<forall>d < NumStates ifst. set (rt ! d) = {s. (s, d) \<in> edges ifst})"
proof -
  have "\<forall>s \<in> set [0 ..< NumStates ifst]. \<forall>a \<in> set (arcs_of ifst s).
          dest_ok (length (replicate (NumStates ifst) ([] :: nat list))) a"
    using assms by (simp add: valid_dests_def)
  from reverse_states_loop [OF this] show ?thesis
    by (auto simp: reverse_transitions_of_def edges_def)
qed

lemma finite_marked [simp]: "finite (marked cr)"
  by (simp add: marked_def)

lemma marked_update: "p < length cr \<Longrightarrow> marked (cr[p := True]) = insert p (marked cr)"
  by (auto simp: marked_def nth_list_update)

lemma visit_loop:
  assumes "\<forall>p \<in> set ps. p < length cr"
  shows "\<exists>cr' q'. fold_err visit_prev ps (cr, q, n)
                   = Inr (cr', q', n + card (set ps - marked cr))
          \<and> length cr' = length cr
          \<and> marked cr' = marked cr \<union> set ps
          \<and> set q' = set q \<union> (set ps - marked cr)"
  using assms
proof (induction ps arbitrary: cr q n)
  case Nil
  show ?case by simp
next
  case (Cons p ps)
  then have p: "p < length cr" by simp
  show ?case
  proof (cases "cr ! p")
    case True
    then have v: "visit_prev p (cr, q, n) = Inr (cr, q, n)"
      using p by (simp add: visit_prev_def)
    have m: "p \<in> marked cr" using True p by (simp add: marked_def)
    then have e: "set (p # ps) - marked cr = set ps - marked cr" by auto
    from Cons.IH [of cr q n] Cons.prems obtain cr' q' where
      "fold_err visit_prev ps (cr, q, n) = Inr (cr', q', n + card (set ps - marked cr))"
      "length cr' = length cr" "marked cr' = marked cr \<union> set ps"
      "set q' = set q \<union> (set ps - marked cr)"
      by auto
    with v m show ?thesis unfolding e by auto
  next
    case False
    let ?cr = "cr[p := True]"
    have v: "visit_prev p (cr, q, n) = Inr (?cr, p # q, n + 1)"
      using p False by (simp add: visit_prev_def)
    have m: "p \<notin> marked cr" using False by (simp add: marked_def)
    have mu: "marked ?cr = insert p (marked cr)" using p by (rule marked_update)
    have "\<forall>p \<in> set ps. p < length ?cr" using Cons.prems by simp
    from Cons.IH [OF this, of "p # q" "n + 1"] obtain cr' q' where
      r: "fold_err visit_prev ps (?cr, p # q, n + 1)
            = Inr (cr', q', n + 1 + card (set ps - marked ?cr))"
      and l: "length cr' = length ?cr" and mk: "marked cr' = marked ?cr \<union> set ps"
      and sq: "set q' = set (p # q) \<union> (set ps - marked ?cr)"
      by auto
    have e: "set (p # ps) - marked cr = insert p (set ps - marked ?cr)"
      using m mu by auto
    have "p \<notin> set ps - marked ?cr" using mu by simp
    then have c: "card (set (p # ps) - marked cr) = 1 + card (set ps - marked ?cr)"
      unfolding e by simp
    from v r l mk sq mu m show ?thesis
      unfolding c by auto
  qed
qed

lemma edges_source: "(u, v) \<in> edges ifst \<Longrightarrow> u < NumStates ifst"
  by (simp add: edges_def)

lemma closed_marked:
  assumes "d \<in> M" and "\<forall>v \<in> M. \<forall>u. (u, v) \<in> edges ifst \<longrightarrow> u \<in> M"
  shows "states_reaching ifst d \<subseteq> M"
proof
  fix s assume "s \<in> states_reaching ifst d"
  then have "(s, d) \<in> (edges ifst)\<^sup>*" by (simp add: states_reaching_def)
  then show "s \<in> M"
    using assms by (induction rule: converse_rtrancl_induct) auto
qed

lemma search_loop_correct:
  assumes "length rt = NumStates ifst"
    and "\<forall>v < NumStates ifst. set (rt ! v) = {u. (u, v) \<in> edges ifst}"
    and "search_inv ifst d st"
  shows "search_loop rt st = Inr (card (states_reaching ifst d))"
  using assms
proof (induction rt st rule: search_loop.induct)
  case (1 rt cr n)
  then have "states_reaching ifst d \<subseteq> marked cr"
    by (intro closed_marked) (auto simp: search_inv_def)
  with 1 have "marked cr = states_reaching ifst d"
    by (auto simp: search_inv_def)
  with 1 show ?case by (simp add: search_inv_def)
next
  case (2 rt cr state queue n)
  let ?N = "NumStates ifst"
  from "2.prems"(3) have
    len: "length cr = ?N" and q: "set (state # queue) \<subseteq> marked cr"
    and n: "n = card (marked cr)" and d: "d \<in> marked cr"
    and sub: "marked cr \<subseteq> states_reaching ifst d"
    and closed: "\<forall>v \<in> marked cr. v \<notin> set (state # queue) \<longrightarrow>
                   (\<forall>u. (u, v) \<in> edges ifst \<longrightarrow> u \<in> marked cr)"
    by (simp_all add: search_inv_def)
  from q len have st: "state < ?N" "state \<in> marked cr" by (auto simp: marked_def)
  have preds: "set (rt ! state) = {u. (u, state) \<in> edges ifst}"
    using "2.prems"(2) st by simp
  then have "\<forall>p \<in> set (rt ! state). p < length cr"
    using len by (auto dest: edges_source)
  from visit_loop [OF this, of queue n] obtain cr' q' where
    run: "fold_err visit_prev (rt ! state) (cr, queue, n)
            = Inr (cr', q', n + card (set (rt ! state) - marked cr))"
    and l': "length cr' = length cr"
    and m': "marked cr' = marked cr \<union> set (rt ! state)"
    and q': "set q' = set queue \<union> (set (rt ! state) - marked cr)"
    by auto
  have reach: "set (rt ! state) \<subseteq> states_reaching ifst d"
  proof
    fix u assume "u \<in> set (rt ! state)"
    then have e: "(u, state) \<in> edges ifst" using preds by simp
    moreover have "(state, d) \<in> (edges ifst)\<^sup>*"
      using sub st by (auto simp: states_reaching_def)
    ultimately have "(u, d) \<in> (edges ifst)\<^sup>*" by (rule converse_rtrancl_into_rtrancl)
    with e show "u \<in> states_reaching ifst d"
      by (simp add: states_reaching_def edges_source)
  qed
  have "card (marked cr \<union> set (rt ! state))
          = card (marked cr) + card (set (rt ! state) - marked cr)"
    by (metis List.finite_set Un_Diff_cancel card_Un_disjoint finite_marked finite_Diff Diff_disjoint)
  then have n': "n + card (set (rt ! state) - marked cr) = card (marked cr')"
    using n m' by simp
  have closed': "\<forall>v \<in> marked cr'. v \<notin> set q' \<longrightarrow>
                   (\<forall>u. (u, v) \<in> edges ifst \<longrightarrow> u \<in> marked cr')"
  proof (intro ballI impI allI)
    fix v u
    assume v: "v \<in> marked cr'" and nq: "v \<notin> set q'" and e: "(u, v) \<in> edges ifst"
    from v nq m' q' have vm: "v \<in> marked cr" and vq: "v \<notin> set queue" by auto
    show "u \<in> marked cr'"
    proof (cases "v = state")
      case True
      with e preds m' show ?thesis by simp
    next
      case False
      with vm vq closed e m' show ?thesis by auto
    qed
  qed
  have inv': "search_inv ifst d (cr', q', n + card (set (rt ! state) - marked cr))"
    using l' len m' q' q d sub reach n' closed'
    by (auto simp: search_inv_def)
  have "state < length rt" using st "2.prems"(1) by simp
  with "2.IH" [OF _ run "2.prems"(1,2) inv'] run show ?case by simp
qed

lemma states_reaching_bounds:
  assumes "d < NumStates ifst"
  shows "1 \<le> card (states_reaching ifst d)" and "card (states_reaching ifst d) \<le> NumStates ifst"
proof -
  have sub: "states_reaching ifst d \<subseteq> {0 ..< NumStates ifst}"
    by (auto simp: states_reaching_def)
  then have fin: "finite (states_reaching ifst d)" by (rule finite_subset) simp
  have "d \<in> states_reaching ifst d" using assms by (simp add: states_reaching_def)
  then have "card (states_reaching ifst d) \<noteq> 0" using fin by auto
  then show "1 \<le> card (states_reaching ifst d)" by simp
  show "card (states_reaching ifst d) \<le> NumStates ifst"
    using card_mono [OF _ sub] by simp
qed

lemma reach_count:
  assumes "valid_dests ifst" and "d < NumStates ifst"
  shows "NumStatesThatCanReach ifst (int d) = Inr (card (states_reaching ifst d))"
proof -
  let ?N = "NumStates ifst"
  let ?cr = "(replicate ?N False)[d := True]"
  from reverse_transitions_ok [OF assms(1)] obtain rt where
    rt: "reverse_transitions_of ifst = Inr rt" and l: "length rt = ?N"
    and p: "\<forall>v < ?N. set (rt ! v) = {u. (u, v) \<in> edges ifst}"
    by auto
  have m: "marked ?cr = {d}"
    using assms(2) by (auto simp: marked_def nth_list_update)
  have "d \<in> states_reaching ifst d" using assms(2) by (simp add: states_reaching_def)
  then have "search_inv ifst d (?cr, [d], 1)"
    by (simp add: search_inv_def m)
  from search_loop_correct [OF l p this]
  have "search_loop rt (?cr, [d], 1) = Inr (card (states_reaching ifst d))" .
  then show ?thesis
    using assms(2) rt states_reaching_bounds [OF assms(2)]
    by (simp add: NumStatesThatCanReach_def Let_def)
qed

text \<open>
  Claim C4. On an automaton whose arcs all lead to states, and for a destination \<open>d\<close> in
  range, \<^verbatim>\<open>NumStatesThatCanReach\<close> returns (it terminates, and no assertion fails) the number
  of states from which \<open>d\<close> is reached along arcs, \<open>d\<close> included; the number is at least 1
  and at most the number of states, and it is the number of states when the automaton
  is strongly connected.
\<close>

theorem C4_reach_count:
  assumes "valid_dests ifst" and "0 \<le> d" and "d < int (NumStates ifst)"
  shows "NumStatesThatCanReach ifst d = Inr (card (states_reaching ifst (nat d)))
       \<and> 1 \<le> card (states_reaching ifst (nat d))
       \<and> card (states_reaching ifst (nat d)) \<le> NumStates ifst
       \<and> (strongly_connected ifst \<longrightarrow> NumStatesThatCanReach ifst d = Inr (NumStates ifst))"
proof -
  have d: "nat d < NumStates ifst" "int (nat d) = d" using assms(2,3) by simp_all
  have r: "NumStatesThatCanReach ifst d = Inr (card (states_reaching ifst (nat d)))"
    using reach_count [OF assms(1) d(1)] d(2) by simp
  have "card (states_reaching ifst (nat d)) = NumStates ifst" if "strongly_connected ifst"
  proof -
    have "states_reaching ifst (nat d) = {0 ..< NumStates ifst}"
      using that d(1) by (auto simp: states_reaching_def strongly_connected_def)
    then show ?thesis by simp
  qed
  with r states_reaching_bounds [OF d(1)] show ?thesis by simp
qed

theorem C4_reach_count_witness:
  "valid_dests two_cycle \<and> (0::int) \<le> 1 \<and> (1::int) < int (NumStates two_cycle)
   \<and> strongly_connected two_cycle
   \<and> NumStatesThatCanReach two_cycle 1 = Inr 2
   \<and> card (states_reaching two_cycle (nat 1)) = 2"
proof -
  have N: "NumStates two_cycle = 2"
    by (simp add: two_cycle_def NumStates_def)
  have v: "valid_dests two_cycle"
    by (auto simp: valid_dests_def two_cycle_def NumStates_def arcs_of_def less_Suc_eq
        dest_ok_def arc1_def numeral_eq_Suc)
  have e: "(0, 1) \<in> edges two_cycle" "(1, 0) \<in> edges two_cycle"
    by (simp_all add: edges_def two_cycle_def NumStates_def arcs_of_def arc1_def)
  have "(s, d) \<in> (edges two_cycle)\<^sup>*" if "s < 2" "d < 2" for s d
  proof -
    from that have "s = 0 \<or> s = 1" "d = 0 \<or> d = 1" by auto
    with e show ?thesis by auto
  qed
  then have sc: "strongly_connected two_cycle"
    by (simp add: strongly_connected_def N)
  have n: "(1::int) < int (NumStates two_cycle)" by (simp add: N)
  from C4_reach_count [OF v _ n] sc v n N show ?thesis by auto
qed

subsection \<open>Special-state selection on two components (claim C9)\<close>

lemma candidate_pairs_eq:
  "candidate_pairs probs
     = replicate (length probs) (Fin 0, 0)
       @ map (\<lambda>i. (flt_neg (probs ! i), i)) [0 ..< length probs]"
proof -
  have "fold (\<lambda>i pairs. pairs @ [f i]) xs init = init @ map f xs"
    for f :: "nat \<Rightarrow> flt \<times> nat" and xs init
    by (induction xs arbitrary: init) simp_all
  then show ?thesis by (simp add: candidate_pairs_def)
qed

lemma set_insert_pair: "set (insert_pair x xs) = insert x (set xs)"
  by (induction xs) auto

lemma set_std_sort: "set (std_sort xs) = set xs"
  by (induction xs) (simp_all add: std_sort_def set_insert_pair)

lemma scanned_in_range:
  assumes "c \<in> set (scanned_candidates probs)" and "0 < length probs"
  shows "c < length probs"
proof -
  from assms(1) obtain x where "x \<in> set (std_sort (candidate_pairs probs))" "c = snd x"
    by (auto simp: scanned_candidates_def dest: in_set_takeD)
  then show ?thesis
    using assms(2) by (auto simp: set_std_sort candidate_pairs_eq)
qed

lemma scan_all_rejected:
  assumes "\<forall>c \<in> set cs. \<exists>n. NumStatesThatCanReach ifst (int c) = Inr n \<and> n < threshold"
  shows "scan_candidates ifst threshold cs = Inl FatalError"
  using assms by (induction cs) auto

lemma reaching_same_side:
  assumes "\<forall>(u, v) \<in> edges ifst. (u \<in> A) = (v \<in> A)" and "(s, d) \<in> (edges ifst)\<^sup>*"
  shows "(s \<in> A) = (d \<in> A)"
  using assms(2,1) by (induction rule: rtrancl_induct) auto

lemma component_bound:
  assumes "two_components ifst A" and "d < NumStates ifst"
  shows "2 * card (states_reaching ifst d) \<le> NumStates ifst"
proof -
  let ?N = "NumStates ifst"
  from assms(1) have A: "A \<subseteq> {0 ..< ?N}" "2 * card A = ?N"
    and e: "\<forall>(u, v) \<in> edges ifst. (u \<in> A) = (v \<in> A)"
    by (simp_all add: two_components_def)
  have finA: "finite A" using A(1) by (rule finite_subset) simp
  have cB: "card ({0 ..< ?N} - A) = card A"
    using A finA by (simp add: card_Diff_subset)
  show ?thesis
  proof (cases "d \<in> A")
    case True
    then have "states_reaching ifst d \<subseteq> A"
      using reaching_same_side [OF e] by (auto simp: states_reaching_def)
    then have "card (states_reaching ifst d) \<le> card A" using finA by (rule card_mono [rotated])
    with A show ?thesis by simp
  next
    case False
    then have "states_reaching ifst d \<subseteq> {0 ..< ?N} - A"
      using reaching_same_side [OF e] by (auto simp: states_reaching_def)
    then have "card (states_reaching ifst d) \<le> card ({0 ..< ?N} - A)"
      by (intro card_mono) simp_all
    with A cB show ?thesis by simp
  qed
qed

text \<open>
  Where each of the two parts has at least 2 states (4 states or more), every candidate
  is reached by at most half of the states, which is below the truncated threshold
  \<open>(3 * num_states) div 4\<close>, and the code raises the fatal error, whatever the initial
  probabilities.
\<close>

lemma two_components_no_anchor:
  assumes "valid_dests ifst" and "two_components ifst A"
    and "length probs = NumStates ifst" and "4 \<le> NumStates ifst"
  shows "ComputeSpecialState ifst probs = Inl FatalError"
proof -
  let ?N = "NumStates ifst"
  have "\<exists>n. NumStatesThatCanReach ifst (int c) = Inr n \<and> n < min_states_can_reach (length probs)"
    if "c \<in> set (scanned_candidates probs)" for c
  proof -
    have c: "c < ?N" using scanned_in_range [OF that] assms(3,4) by simp
    have "2 * card (states_reaching ifst c) \<le> ?N"
      using assms(2) c by (rule component_bound)
    then have "card (states_reaching ifst c) < min_states_can_reach (length probs)"
      using assms(3,4) by (simp add: min_states_can_reach_def)
    with reach_count [OF assms(1) c] show ?thesis by simp
  qed
  then show ?thesis
    by (simp add: ComputeSpecialState_def scan_all_rejected)
qed

lemma isolated_reach0: "NumStatesThatCanReach two_isolated 0 = Inr 1"
  by (simp add: NumStatesThatCanReach_def reverse_transitions_of_def add_reverse_def
      two_isolated_def eval_defs upt_rec visit_prev_def)

lemma isolated_edges: "edges two_isolated = {(0, 0), (1, 1)}"
  by (auto simp: edges_def two_isolated_def NumStates_def arcs_of_def arc1_def less_Suc_eq
      numeral_eq_Suc nth_Cons split: nat.splits)

lemma isolated_nf: "normalizing_factors two_isolated = Inr [Fin (1 / 2), Fin (1 / 2)]"
  by (simp add: two_isolated_def eval_defs upt_rec)

lemma isolated_it:
  "iteration two_isolated 100 [Fin (1 / 2), Fin (1 / 2)]
      ([Fin 1, Fin 0], [Fin 0, Fin 0], [Fin a, Fin 0])
     = Inr ([Fin 1, Fin 0], [Fin 0, Fin 0], [Fin (a + 1 / 100), Fin 0])"
  by (simp add: two_isolated_def eval_defs upt_rec)

lemma isolated_its:
  "iterations k two_isolated 100 [Fin (1 / 2), Fin (1 / 2)]
      ([Fin 1, Fin 0], [Fin 0, Fin 0], [Fin a, Fin 0])
     = Inr ([Fin 1, Fin 0], [Fin 0, Fin 0], [Fin (a + real k / 100), Fin 0])"
proof (induction k arbitrary: a)
  case 0
  show ?case by simp
next
  case (Suc k)
  show ?case by (simp add: isolated_it Suc add_divide_distrib)
qed

lemma isolated_avg_prob: "avg_prob_of two_isolated = Inr [Fin 1, Fin 0]"
  using isolated_its [of 100 0]
  by (simp add: avg_prob_of_def isolated_nf Let_def) (simp add: two_isolated_def NumStates_def)

text \<open>
  With the test on 75 percent of the states as the comment and the specification word it,
  every candidate of an automaton of two parts of equal size is rejected, whatever the
  size of the parts.
\<close>

lemma scan_three_quarters_rejects:
  assumes "\<forall>c \<in> set cs. \<exists>n. NumStatesThatCanReach ifst (int c) = Inr n \<and> 4 * n < 3 * num_states"
  shows "scan_three_quarters ifst num_states cs = Inl FatalError"
  using assms by (induction cs) auto

lemma two_components_no_anchor_spec:
  assumes "valid_dests ifst" and "two_components ifst A" and "0 < NumStates ifst"
    and "\<forall>c \<in> set cs. c < NumStates ifst"
  shows "scan_three_quarters ifst (NumStates ifst) cs = Inl FatalError"
proof (rule scan_three_quarters_rejects, rule ballI)
  fix c assume "c \<in> set cs"
  then have c: "c < NumStates ifst" using assms(4) by simp
  have "2 * card (states_reaching ifst c) \<le> NumStates ifst"
    using assms(2) c by (rule component_bound)
  then have "4 * card (states_reaching ifst c) < 3 * NumStates ifst"
    using assms(3) by simp
  with reach_count [OF assms(1) c]
  show "\<exists>n. NumStatesThatCanReach ifst (int c) = Inr n \<and> 4 * n < 3 * NumStates ifst"
    by simp
qed

lemma isolated_reach1: "NumStatesThatCanReach two_isolated 1 = Inr 1"
  by (simp add: NumStatesThatCanReach_def reverse_transitions_of_def add_reverse_def
      two_isolated_def eval_defs upt_rec visit_prev_def)

lemma isolated_components: "two_components two_isolated {0}"
  by (simp add: two_components_def isolated_edges) (simp add: two_isolated_def NumStates_def)

text \<open>
  Claim C9, evaluated on \<open>two_isolated\<close>: two components of one state each. The estimator
  gives the probabilities \<open>[1, 0]\<close>. The only arcs are the two self-loops. State 0 is reached by 1 of the 2 states, which is
  less than 75 percent of them, and so is state 1: scanning the ranked states with the
  test on 75 percent rejects both and raises the fatal error, as the claim says. In the
  code \<^verbatim>\<open>int32 min_states_can_reach = 0.75 * num_states\<close> truncates 1.5 to 1, the test
  \<^verbatim>\<open>n < min_states_can_reach\<close> is false for \<open>n = 1\<close>, and state 0 is returned: no error
  is raised.
\<close>

theorem C9_two_isolated_accepted:
  "edges two_isolated = {(0, 0), (1, 1)}
   \<and> NumStatesThatCanReach two_isolated 0 = Inr 1
   \<and> NumStatesThatCanReach two_isolated 1 = Inr 1
   \<and> 4 * 1 < 3 * NumStates two_isolated
   \<and> min_states_can_reach (NumStates two_isolated) = 1
   \<and> scan_three_quarters two_isolated (NumStates two_isolated) (ranked_states [Fin 1, Fin 0])
       = Inl FatalError
   \<and> ComputeSpecialState two_isolated [Fin 1, Fin 0] = Inr 0
   \<and> SetInitialProbs two_isolated = Inr ([Fin 1, Fin 0], 0)"
proof -
  have N: "NumStates two_isolated = 2"
    by (simp add: two_isolated_def NumStates_def)
  have "ComputeSpecialState two_isolated [Fin 1, Fin 0] = Inr 0"
    by (simp add: ComputeSpecialState_def scanned_candidates_def candidate_pairs_def
        std_sort_def pair_less_def min_states_can_reach_def isolated_reach0 upt_rec)
  moreover have "ranked_states [Fin 1, Fin 0] = [0, 1]"
    by (simp add: ranked_states_def std_sort_def pair_less_def upt_rec)
  ultimately show ?thesis
    by (simp add: SetInitialProbs_def isolated_avg_prob isolated_reach0 isolated_reach1 N
        min_states_can_reach_def isolated_edges)
qed

lemma pairs_edges: "edges two_pairs = {(0, 1), (1, 0), (2, 3), (3, 2)}"
  by (auto simp: edges_def two_pairs_def NumStates_def arcs_of_def arc1_def less_Suc_eq
      numeral_eq_Suc nth_Cons split: nat.splits)

lemma two_components_no_anchor_example:
  "valid_dests two_pairs \<and> two_components two_pairs {0, 1}
   \<and> length [Fin (1 / 2), Fin (1 / 2), Fin 0, Fin 0] = NumStates two_pairs
   \<and> 4 \<le> NumStates two_pairs
   \<and> ComputeSpecialState two_pairs [Fin (1 / 2), Fin (1 / 2), Fin 0, Fin 0] = Inl FatalError"
proof -
  have N: "NumStates two_pairs = 4" by (simp add: two_pairs_def NumStates_def)
  have v: "valid_dests two_pairs"
    by (auto simp: valid_dests_def two_pairs_def NumStates_def arcs_of_def less_Suc_eq
        dest_ok_def arc1_def numeral_eq_Suc)
  have c: "two_components two_pairs {0, 1}"
    by (simp add: two_components_def pairs_edges N)
  have l: "length [Fin (1 / 2), Fin (1 / 2), Fin 0, Fin 0] = NumStates two_pairs"
    by (simp add: N)
  have n: "4 \<le> NumStates two_pairs" by (simp add: N)
  from two_components_no_anchor [OF v c l n] v c l n show ?thesis by simp
qed

subsection \<open>The candidate array of ComputeSpecialState (claim C10)\<close>

lemma pair_less_key:
  "fin_key a \<Longrightarrow> fin_key b \<Longrightarrow> pair_less a b = (to_key a < to_key b)"
  by (cases a; cases b) (auto simp: fin_key_def to_key_def pair_less_def less_prod_def split: flt.splits)

lemma to_key_inj: "fin_key a \<Longrightarrow> fin_key b \<Longrightarrow> to_key a = to_key b \<Longrightarrow> a = b"
  by (cases a; cases b) (auto simp: fin_key_def to_key_def split: flt.splits)

lemma mset_insert_pair: "mset (insert_pair x xs) = add_mset x (mset xs)"
  by (induction xs) auto

lemma mset_std_sort: "mset (std_sort xs) = mset xs"
  by (induction xs) (simp_all add: std_sort_def mset_insert_pair)

lemma std_sort_Cons: "std_sort (x # xs) = insert_pair x (std_sort xs)"
  by (simp add: std_sort_def)

lemma sorted_insert_pair:
  assumes "fin_key x" and "\<forall>y \<in> set xs. fin_key y" and "sorted (map to_key xs)"
  shows "sorted (map to_key (insert_pair x xs))"
  using assms
proof (induction xs)
  case Nil
  show ?case by simp
next
  case (Cons y ys)
  show ?case
  proof (cases "pair_less x y")
    case True
    then have "to_key x < to_key y" using Cons.prems by (simp add: pair_less_key)
    with True Cons.prems show ?thesis by auto
  next
    case False
    then have le: "to_key y \<le> to_key x" using Cons.prems by (simp add: pair_less_key)
    have "sorted (map to_key (insert_pair x ys))" using Cons by simp
    moreover have "\<forall>z \<in> set (insert_pair x ys). to_key y \<le> to_key z"
      using le Cons.prems(3) by (auto simp: set_insert_pair)
    ultimately show ?thesis using False by simp
  qed
qed

lemma sorted_std_sort:
  assumes "\<forall>y \<in> set xs. fin_key y"
  shows "sorted (map to_key (std_sort xs))"
  using assms
proof (induction xs)
  case Nil
  show ?case by (simp add: std_sort_def)
next
  case (Cons x xs)
  then show ?case
    by (simp add: std_sort_Cons sorted_insert_pair set_std_sort)
qed

lemma std_sort_unique:
  assumes "\<forall>y \<in> set xs. fin_key y" and "mset ys = mset xs" and "sorted (map to_key ys)"
  shows "std_sort xs = ys"
proof -
  have s: "set ys = set xs" using assms(2) by (rule mset_eq_setD)
  have "sort (map to_key xs) = map to_key (std_sort xs)"
    by (intro properties_for_sort) (simp_all add: mset_std_sort sorted_std_sort assms(1))
  moreover have "sort (map to_key xs) = map to_key ys"
    using assms(2,3) by (intro properties_for_sort) simp_all
  ultimately have "map to_key (std_sort xs) = map to_key ys" by simp
  moreover have "inj_on to_key (set (std_sort xs) \<union> set ys)"
  proof (rule inj_onI)
    fix a b
    assume "a \<in> set (std_sort xs) \<union> set ys" "b \<in> set (std_sort xs) \<union> set ys"
      and "to_key a = to_key b"
    then show "a = b"
      using assms(1) s by (intro to_key_inj) (simp_all add: set_std_sort)
  qed
  ultimately show ?thesis by (rule map_inj_on)
qed

lemma sorted_zero_keys: "sorted (map (\<lambda>i. (0::real, i)) (filter Q [0 ..< n]))"
proof -
  have "sorted_wrt (\<lambda>x y. (0::real, x) \<le> (0, y)) [0 ..< n]"
    by (rule sorted_wrt_mono_rel [OF _ sorted_upt]) (simp add: less_eq_prod_def)
  then have "sorted (map (\<lambda>i. (0::real, i)) [0 ..< n])"
    by (simp add: sorted_map)
  then show ?thesis by (rule sorted_filter)
qed

lemma state_pair_key:
  assumes "is_prob (probs ! i)"
  shows "fin_key (state_pair probs i)"
    and "flt_less (fst (state_pair probs i)) (Fin 0) = (probs ! i \<noteq> Fin 0)"
    and "probs ! i = Fin 0 \<Longrightarrow> to_key (state_pair probs i) = (0, i)"
    and "fst (to_key (state_pair probs i)) \<le> 0"
  using assms
  by (auto simp: is_prob_def fin_key_def state_pair_def to_key_def split: flt.splits)

lemma sorted_candidates:
  assumes "list_all is_prob probs"
  shows "std_sort (candidate_pairs probs)
           = std_sort (filter (\<lambda>p. flt_less (fst p) (Fin 0))
                         (map (state_pair probs) [0 ..< length probs]))
             @ replicate (length probs) (Fin 0, 0)
             @ filter (\<lambda>p. \<not> flt_less (fst p) (Fin 0))
                 (map (state_pair probs) [0 ..< length probs])"
    (is "_ = std_sort ?neg @ ?dflt @ ?zero")
proof -
  let ?N = "length probs"
  let ?ys = "map (state_pair probs) [0 ..< ?N]"
  have p: "is_prob (probs ! i)" if "i < ?N" for i
    using assms that by (simp add: list_all_length)
  have xs: "candidate_pairs probs = ?dflt @ ?ys"
    by (simp add: candidate_pairs_eq state_pair_def)
  have fin_ys: "\<forall>y \<in> set ?ys. fin_key y"
    using p by (auto simp: state_pair_key)
  have fin: "\<forall>y \<in> set (candidate_pairs probs). fin_key y"
    using fin_ys by (auto simp: xs fin_key_def)
  have "mset ?neg + mset ?zero = mset ?ys"
    unfolding mset_filter by (rule multiset_partition [symmetric])
  then have m: "mset (std_sort ?neg @ ?dflt @ ?zero) = mset (candidate_pairs probs)"
    unfolding xs mset_append mset_std_sort by (simp only: ac_simps)
  have "filter (\<lambda>i. \<not> flt_less (fst (state_pair probs i)) (Fin 0)) [0 ..< ?N]
          = filter (\<lambda>i. probs ! i = Fin 0) [0 ..< ?N]"
    by (rule filter_cong) (simp_all add: state_pair_key(2) p)
  then have z: "?zero = map (state_pair probs) (filter (\<lambda>i. probs ! i = Fin 0) [0 ..< ?N])"
    by (simp add: filter_map comp_def)
  have zero_eq: "map to_key ?zero
          = map (\<lambda>i. (0::real, i)) (filter (\<lambda>i. probs ! i = Fin 0) [0 ..< ?N])"
    unfolding z map_map by (rule map_cong) (auto simp: state_pair_def to_key_def)
  have s1: "sorted (map to_key (std_sort ?neg))"
    using fin_ys by (intro sorted_std_sort) auto
  have s2: "sorted (map to_key ?zero)"
    unfolding zero_eq by (rule sorted_zero_keys)
  have neg_lt: "to_key a < (0, 0)" if "a \<in> set ?neg" for a
  proof -
    from that obtain i where i: "i < ?N" "a = state_pair probs i" "flt_less (fst a) (Fin 0)"
      by auto
    with p [OF i(1)] show ?thesis
      by (auto simp: is_prob_def state_pair_def to_key_def less_prod_def split: flt.splits)
  qed
  have zero_ge: "(0, 0) \<le> to_key a" if "a \<in> set ?zero" for a
  proof -
    from that obtain i where i: "i < ?N" "a = state_pair probs i" "\<not> flt_less (fst a) (Fin 0)"
      by auto
    with p [OF i(1)] show ?thesis
      by (auto simp: is_prob_def state_pair_def to_key_def less_eq_prod_def split: flt.splits)
  qed
  have k0: "to_key (Fin 0, 0) = (0, 0)" by (simp add: to_key_def)
  have s3: "sorted (map to_key (?dflt @ ?zero))"
    using s2 zero_ge by (auto simp: sorted_append k0)
  have "to_key a \<le> to_key b" if "a \<in> set (std_sort ?neg)" "b \<in> set (?dflt @ ?zero)" for a b
  proof -
    have "to_key a < (0, 0)" using that(1) neg_lt by (simp only: set_std_sort)
    moreover have "(0, 0) \<le> to_key b"
    proof (cases "b \<in> set ?zero")
      case True
      then show ?thesis by (rule zero_ge)
    next
      case False
      with that(2) have "b = (Fin 0, 0)" by auto
      then show ?thesis by (simp add: k0)
    qed
    ultimately show ?thesis by simp
  qed
  note le = this
  have "\<forall>x \<in> set (map to_key (std_sort ?neg)). \<forall>y \<in> set (map to_key (?dflt @ ?zero)). x \<le> y"
  proof (intro ballI)
    fix x y
    assume "x \<in> set (map to_key (std_sort ?neg))" "y \<in> set (map to_key (?dflt @ ?zero))"
    then obtain a b where "a \<in> set (std_sort ?neg)" "x = to_key a"
      "b \<in> set (?dflt @ ?zero)" "y = to_key b"
      unfolding set_map by blast
    then show "x \<le> y" using le by simp
  qed
  with s1 s3 have "sorted (map to_key (std_sort ?neg) @ map to_key (?dflt @ ?zero))"
    unfolding sorted_append by (intro conjI)
  then have "sorted (map to_key (std_sort ?neg @ (?dflt @ ?zero)))"
    by (simp only: map_append)
  with fin m show ?thesis by (intro std_sort_unique) simp_all
qed

lemma split_pairs:
  assumes "list_all is_prob probs"
  shows "filter (\<lambda>p. flt_less (fst p) (Fin 0)) (map (state_pair probs) [0 ..< length probs])
           = map (state_pair probs) (filter (\<lambda>i. probs ! i \<noteq> Fin 0) [0 ..< length probs])"
    and "filter (\<lambda>p. \<not> flt_less (fst p) (Fin 0)) (map (state_pair probs) [0 ..< length probs])
           = map (state_pair probs) (filter (\<lambda>i. probs ! i = Fin 0) [0 ..< length probs])"
proof -
  have p: "is_prob (probs ! i)" if "i < length probs" for i
    using assms that by (simp add: list_all_length)
  have "filter (\<lambda>i. flt_less (fst (state_pair probs i)) (Fin 0)) [0 ..< length probs]
          = filter (\<lambda>i. probs ! i \<noteq> Fin 0) [0 ..< length probs]"
    by (rule filter_cong) (simp_all add: state_pair_key(2) p)
  then show "filter (\<lambda>p. flt_less (fst p) (Fin 0)) (map (state_pair probs) [0 ..< length probs])
           = map (state_pair probs) (filter (\<lambda>i. probs ! i \<noteq> Fin 0) [0 ..< length probs])"
    by (simp add: filter_map comp_def)
  have "filter (\<lambda>i. \<not> flt_less (fst (state_pair probs i)) (Fin 0)) [0 ..< length probs]
          = filter (\<lambda>i. probs ! i = Fin 0) [0 ..< length probs]"
    by (rule filter_cong) (simp_all add: state_pair_key(2) p)
  then show "filter (\<lambda>p. \<not> flt_less (fst p) (Fin 0)) (map (state_pair probs) [0 ..< length probs])
           = map (state_pair probs) (filter (\<lambda>i. probs ! i = Fin 0) [0 ..< length probs])"
    by (simp add: filter_map comp_def)
qed

lemma num_zero_index:
  "num_zero probs = length (filter (\<lambda>i. probs ! i = Fin 0) [0 ..< length probs])"
proof -
  have "filter (\<lambda>p. p = Fin 0) (map (\<lambda>i. probs ! i) [0 ..< length probs])
          = map (\<lambda>i. probs ! i) (filter (\<lambda>i. probs ! i = Fin 0) [0 ..< length probs])"
    by (simp add: filter_map comp_def)
  then have "length (filter (\<lambda>p. p = Fin 0) (map (\<lambda>i. probs ! i) [0 ..< length probs]))
          = length (filter (\<lambda>i. probs ! i = Fin 0) [0 ..< length probs])"
    by simp
  then show ?thesis by (simp add: num_zero_def map_nth)
qed

lemma scanned_explicit:
  assumes "list_all is_prob probs"
  shows "scanned_candidates probs = ranked_positive probs @ replicate (num_zero probs) 0"
proof -
  let ?N = "length probs"
  let ?ys = "map (state_pair probs) [0 ..< ?N]"
  let ?neg = "filter (\<lambda>p. flt_less (fst p) (Fin 0)) ?ys"
  let ?zero = "filter (\<lambda>p. \<not> flt_less (fst p) (Fin 0)) ?ys"
  have "length (std_sort ?neg) = size (mset (std_sort ?neg))" by simp
  then have ln: "length (std_sort ?neg) = length ?neg" by (simp only: mset_std_sort size_mset)
  have "length ?neg + length ?zero = length ?ys" by (rule sum_length_filter_compl)
  then have sum: "length ?neg + length ?zero = ?N" by simp
  have lz: "length ?zero = num_zero probs"
    by (simp only: split_pairs(2) [OF assms] num_zero_index length_map)
  have "take ?N (std_sort ?neg @ replicate ?N (Fin 0, 0) @ ?zero)
          = std_sort ?neg @ replicate (?N - length ?neg) (Fin 0, 0)"
    using sum by (simp add: ln min_def)
  moreover have "?N - length ?neg = num_zero probs" using sum lz by simp
  ultimately show ?thesis
    by (simp add: scanned_candidates_def sorted_candidates [OF assms] ranked_positive_def)
qed





subsection \<open>ComputeSpecialState against the specification (claim C3)\<close>

text \<open>
  Where every state has a positive initial probability the value-initialised pairs sort
  behind the pairs of the states, the scanned candidates are the ranked states, and the
  code selects as the specification says.
\<close>

lemma selection_agrees_without_zeros:
  assumes "list_all is_prob probs" and "num_zero probs = 0"
  shows "ComputeSpecialState ifst probs = ComputeSpecialState_spec ifst probs"
proof -
  have "filter (\<lambda>i. probs ! i = Fin 0) [0 ..< length probs] = []"
    using assms(2) by (simp only: num_zero_index length_0_conv)
  then have "\<forall>i \<in> set [0 ..< length probs]. probs ! i \<noteq> Fin 0"
    by (simp only: filter_empty_conv)
  then have "filter (\<lambda>i. probs ! i \<noteq> Fin 0) [0 ..< length probs] = [0 ..< length probs]"
    by (simp only: filter_id_conv)
  then have "filter (\<lambda>p. flt_less (fst p) (Fin 0)) (map (state_pair probs) [0 ..< length probs])
          = map (state_pair probs) [0 ..< length probs]"
    by (simp only: split_pairs(1) [OF assms(1)])
  moreover have "ranked_states probs = map snd (std_sort (map (state_pair probs) [0 ..< length probs]))"
    by (simp add: ranked_states_def state_pair_def [abs_def])
  ultimately have "ranked_positive probs = ranked_states probs"
    by (simp only: ranked_positive_def)
  then show ?thesis
    by (simp add: ComputeSpecialState_def ComputeSpecialState_spec_def
        scanned_explicit [OF assms(1)] assms(2))
qed

lemma island_nf: "normalizing_factors start_island = Inr [Fin 1, Fin (1/2), Fin (1/2), Fin (1/2)]"
  by (simp add: start_island_def eval_defs upt_rec)

lemma island_it:
  "iteration start_island 100 [Fin 1, Fin (1/2), Fin (1/2), Fin (1/2)]
      ([Fin 1, Fin 0, Fin 0, Fin 0], [Fin 0, Fin 0, Fin 0, Fin 0], [Fin a, Fin 0, Fin 0, Fin 0])
     = Inr ([Fin 1, Fin 0, Fin 0, Fin 0], [Fin 0, Fin 0, Fin 0, Fin 0], [Fin (a + 1 / 100), Fin 0, Fin 0, Fin 0])"
  by (simp add: start_island_def eval_defs upt_rec)

lemma island_its:
  "iterations k start_island 100 [Fin 1, Fin (1/2), Fin (1/2), Fin (1/2)]
      ([Fin 1, Fin 0, Fin 0, Fin 0], [Fin 0, Fin 0, Fin 0, Fin 0], [Fin a, Fin 0, Fin 0, Fin 0])
     = Inr ([Fin 1, Fin 0, Fin 0, Fin 0], [Fin 0, Fin 0, Fin 0, Fin 0], [Fin (a + real k / 100), Fin 0, Fin 0, Fin 0])"
proof (induction k arbitrary: a)
  case 0
  show ?case by simp
next
  case (Suc k)
  show ?case by (simp add: island_it Suc add_divide_distrib)
qed

lemma island_avg_prob: "avg_prob_of start_island = Inr [Fin 1, Fin 0, Fin 0, Fin 0]"
  using island_its [of 100 0]
  by (simp add: avg_prob_of_def island_nf Let_def) (simp add: start_island_def NumStates_def)

lemma island_rev: "reverse_transitions_of start_island = Inr [[0], [1, 2, 3], [], []]"
  by (simp add: reverse_transitions_of_def add_reverse_def start_island_def eval_defs upt_rec)

lemma island_num: "NumStates start_island = 4"
  by (simp add: start_island_def NumStates_def)

lemma island_reach0: "NumStatesThatCanReach start_island 0 = Inr 1"
  by (simp add: NumStatesThatCanReach_def island_rev island_num visit_prev_def eval_nat_numeral)

lemma island_reach1: "NumStatesThatCanReach start_island 1 = Inr 3"
  by (simp add: NumStatesThatCanReach_def island_rev island_num visit_prev_def eval_nat_numeral)

lemma island_scanned: "scanned_candidates [Fin 1, Fin 0, Fin 0, Fin 0] = [0, 0, 0, 0]"
  by (simp add: scanned_candidates_def candidate_pairs_def std_sort_def pair_less_def upt_rec)

lemma island_ranked: "ranked_states [Fin 1, Fin 0, Fin 0, Fin 0] = [0, 1, 2, 3]"
  by (simp add: ranked_states_def std_sort_def pair_less_def upt_rec)

text \<open>
  Claim C3, evaluated on \<open>start_island\<close>. The estimator gives the probabilities
  \<open>[1, 0, 0, 0]\<close>. State 0 is reached from itself only; state 1 is reached from 3 of the
  4 states, which meets the threshold 3. Ranked by probability the states are
  \<open>0, 1, 2, 3\<close> and the selection of the specification returns state 1. The code scans
  \<open>0, 0, 0, 0\<close> (the value-initialised pairs sort before the pairs of the states with
  probability 0), rejects state 0 four times and raises the fatal error.
\<close>

theorem C3_zero_probability_states_skipped:
  "avg_prob_of start_island = Inr [Fin 1, Fin 0, Fin 0, Fin 0]
   \<and> ComputeSpecialState start_island [Fin 1, Fin 0, Fin 0, Fin 0] = Inl FatalError
   \<and> ComputeSpecialState_spec start_island [Fin 1, Fin 0, Fin 0, Fin 0] = Inr 1
   \<and> SetInitialProbs start_island = Inl FatalError"
proof -
  have a: "ComputeSpecialState start_island [Fin 1, Fin 0, Fin 0, Fin 0] = Inl FatalError"
    by (simp add: ComputeSpecialState_def island_scanned island_reach0 min_states_can_reach_def)
  have b: "ComputeSpecialState_spec start_island [Fin 1, Fin 0, Fin 0, Fin 0] = Inr 1"
    by (simp add: ComputeSpecialState_spec_def island_ranked island_reach0 island_reach1 min_states_can_reach_def)
  show ?thesis
    by (simp add: a b island_avg_prob SetInitialProbs_def)
qed


end
